theory Spec2Isabelle
  imports Main
begin

section \<open>Values, nodes and the syntax tree\<close>

text \<open>
  The repository holds two parser engines and one renderer:
  \<^item> the extglob parser of \<^verbatim>\<open>lib/extglob/parser.js\<close> (first module of the file): a fixed
    table of handlers registered with \<^verbatim>\<open>capture\<close> and \<^verbatim>\<open>pair\<close>, run by \<^verbatim>\<open>next\<close> and
    \<^verbatim>\<open>parse\<close>;
  \<^item> the snapdragon parser (second module of the same file): a list of middleware
    functions run by \<^verbatim>\<open>run\<close> and \<^verbatim>\<open>parse\<close>;
  \<^item> the renderer of \<^verbatim>\<open>snapdragon/lib/renderer.js\<close>.

  JavaScript strings are modelled as \<open>string\<close>; a \<open>char\<close> stands for one code unit,
  and \<open>length\<close> for \<^verbatim>\<open>.length\<close>. Numbers that count characters are \<open>nat\<close>; the
  counter \<^verbatim>\<open>count\<close>, which \<^verbatim>\<open>pop\<close> may drive below zero, is \<open>int\<close>.
\<close>

definition dq :: string where
  "dq = [CHR 0x22]"

fun string_of_nat :: "nat \<Rightarrow> string" where
  "string_of_nat n =
     (if n < 10 then [char_of (48 + n)]
      else string_of_nat (n div 10) @ [char_of (48 + n mod 10)])"

declare string_of_nat.simps [simp del]

text \<open>
  Modelled from the spec: the class \<^verbatim>\<open>Position\<close> of \<^verbatim>\<open>./position\<close> is not among the
  sources. The spec gives a position a \<^verbatim>\<open>start\<close>, the snapshot taken before the match
  is attempted, and an \<^verbatim>\<open>end\<close>, which follows from the start and the text consumed:
  the parser's cursor at the time the node is made. The extglob parser snapshots
  \<^verbatim>\<open>{column}\<close> only; the snapdragon parser snapshots \<^verbatim>\<open>{line, column}\<close>.
\<close>

record point =
  line :: "int option"
  col :: int

record position =
  pos_start :: point
  pos_end :: point

text \<open>
  A reference to a node is the path of child indices that leads to it from the root:
  nodes are only ever appended to a \<^verbatim>\<open>nodes\<close> array, so the path of an object never
  changes and two references are the same object exactly when the paths are equal.
\<close>

type_synonym ref = "nat list"

record node =
  type :: string
  val :: "string option"
  prefix :: "string option"
  suffix :: "string option"
  parsed :: "string option"
  rest :: "string option"
  parent :: "ref option"
  position :: "position option"
  source :: "string option"

text \<open>An object without a \<^verbatim>\<open>nodes\<close> property is a \<open>Leaf\<close>, one with it a \<open>Branch\<close>.\<close>

datatype ast = Leaf node | Branch node "ast list"

fun node_of :: "ast \<Rightarrow> node" where
  "node_of (Leaf n) = n"
| "node_of (Branch n ks) = n"

definition new_node :: "string \<Rightarrow> node" where
  "new_node t = \<lparr>type = t, val = None, prefix = None, suffix = None, parsed = None,
     rest = None, parent = None, position = None, source = None\<rparr>"

function get_node :: "ast \<Rightarrow> ref \<Rightarrow> ast option" where
  "get_node t [] = Some t"
| "get_node (Leaf n) (i # r) = None"
| "get_node (Branch n ks) (i # r) = (if i < length ks then get_node (ks ! i) r else None)"
  by pat_completeness auto
termination
  by (relation "measure (\<lambda>(t, r). length r)") auto

text \<open>
  \<^verbatim>\<open>target.nodes.push(child)\<close>. \<open>None\<close> is the TypeError JavaScript raises when the
  target has no \<^verbatim>\<open>nodes\<close> array.
\<close>

function nodes_push :: "ast \<Rightarrow> ref \<Rightarrow> ast \<Rightarrow> ast option" where
  "nodes_push (Branch n ks) [] c = Some (Branch n (ks @ [c]))"
| "nodes_push (Leaf n) [] c = None"
| "nodes_push (Leaf n) (i # r) c = None"
| "nodes_push (Branch n ks) (i # r) c =
     (if i < length ks
      then (case nodes_push (ks ! i) r c of
              None \<Rightarrow> None
            | Some k \<Rightarrow> Some (Branch n (ks[i := k])))
      else None)"
  by pat_completeness auto
termination
  by (relation "measure (\<lambda>(t, r, c). length r)") auto

text \<open>The reference the next child pushed onto \<open>r\<close> will have.\<close>

definition child_ref :: "ast \<Rightarrow> ref \<Rightarrow> ref" where
  "child_ref t r =
     (case get_node t r of
        Some (Branch n ks) \<Rightarrow> r @ [length ks]
      | _ \<Rightarrow> r @ [0])"

section \<open>The extglob parser\<close>

record rmatch =
  m0 :: string
  m1 :: "string option"

text \<open>
  A regular expression is what \<^verbatim>\<open>regex.exec\<close> makes of it: a function from the
  remaining input to a match (\<^verbatim>\<open>m[0]\<close>, \<^verbatim>\<open>m[1]\<close>) or to nothing.
\<close>

type_synonym regex = "string \<Rightarrow> rmatch option"

text \<open>The expression \<^verbatim>\<open>/^c/\<close> for one literal character \<open>c\<close>, as \<^verbatim>\<open>/^\\(/\<close>.\<close>

definition lit :: "char \<Rightarrow> regex" where
  "lit c s =
     (case s of
        [] \<Rightarrow> None
      | x # xs \<Rightarrow> if x = c then Some \<lparr>m0 = [c], m1 = None\<rparr> else None)"

text \<open>
  The three closures that \<^verbatim>\<open>capture\<close> and \<^verbatim>\<open>pair\<close> register, each with the
  variables it closes over.
\<close>

datatype handler =
    Capture string regex
  | PairOpen string regex
  | PairClose string regex

record options =
  opt_source :: string
  strict :: bool
  silent :: bool

record err =
  message :: string
  reason :: string
  err_column :: nat
  err_source :: string

datatype exn =
    Error string
  | FormattedError err
  | TypeError string
  | Undefined

record parser =
  options :: options
  input :: string
  parsed_text :: string
  column :: nat
  errors :: "err list"
  parsers :: "string \<Rightarrow> handler option"
  ast :: ast
  types :: "string list"
  stack :: "ref list"
  count :: int
  sets :: "string \<Rightarrow> ref list option"
  orig :: "string option"
  specialChars :: bool
  append_text :: "string option"

text \<open>
  \<^verbatim>\<open>pos(node)\<close>, the closure \<^verbatim>\<open>position()\<close> returns: \<open>start\<close> is the column snapshot
  the closure holds.
\<close>

definition position_start :: "parser \<Rightarrow> point" where
  "position_start p = \<lparr>line = None, col = int (column p)\<rparr>"

definition pos :: "point \<Rightarrow> parser \<Rightarrow> node \<Rightarrow> node" where
  "pos start p n =
     n\<lparr>position := Some \<lparr>pos_start = start, pos_end = \<lparr>line = None, col = int (column p)\<rparr>\<rparr>,
       source := orig p\<rparr>"

text \<open>
  The constructor: \<^verbatim>\<open>utils.extend({source: 'extglob'}, options)\<close> is the \<open>options\<close>
  argument; \<^verbatim>\<open>this.nodes = [this.ast]\<close> never changes and is the root reference
  \<open>[]\<close> in \<open>prev\<close>; \<^verbatim>\<open>this.fns\<close> is not read by \<^verbatim>\<open>parse\<close>.
\<close>

definition bos :: node where
  "bos = (new_node ''bos'')\<lparr>val := Some [],
     position := Some \<lparr>pos_start = \<lparr>line = None, col = 1\<rparr>,
                       pos_end = \<lparr>line = None, col = 1\<rparr>\<rparr>\<rparr>"

definition Parser :: "options \<Rightarrow> parser" where
  "Parser opts =
     \<lparr>options = opts, input = [], parsed_text = [], column = 1, errors = [],
      parsers = Map.empty,
      ast = Branch (new_node ''root'') [Leaf bos],
      types = [], stack = [], count = 0,
      sets = [''single'' \<mapsto> [], ''double'' \<mapsto> [], ''bracket'' \<mapsto> [],
              ''brace'' \<mapsto> [], ''paren'' \<mapsto> []],
      orig = None, specialChars = False, append_text = None\<rparr>"

definition make_err :: "string \<Rightarrow> parser \<Rightarrow> err" where
  "make_err msg p =
     \<lparr>message = opt_source (options p) @ '' column:'' @ string_of_nat (column p) @ '': '' @ msg,
      reason = msg, err_column = column p, err_source = opt_source (options p)\<rparr>"

text \<open>\<^verbatim>\<open>error(msg)\<close>: pushes the error when \<^verbatim>\<open>silent\<close> (and returns), throws it otherwise.\<close>

definition error :: "string \<Rightarrow> parser \<Rightarrow> (exn \<times> parser) + parser" where
  "error msg p =
     (if silent (options p) then Inr (p\<lparr>errors := errors p @ [make_err msg p]\<rparr>)
      else Inl (FormattedError (make_err msg p), p))"

definition set_parser :: "string \<Rightarrow> handler \<Rightarrow> parser \<Rightarrow> parser" where
  "set_parser t fn p = p\<lparr>types := types p @ [t], parsers := (parsers p)(t \<mapsto> fn)\<rparr>"

text \<open>
  \<^verbatim>\<open>push(type, token)\<close>: the counter and the flattened stack first, then the stack of
  the kind. \<open>sets\<close> maps the five keys that hold an array. For any other name
  \<^verbatim>\<open>this.sets[type]\<close> is undefined, or a property inherited from
  \<^verbatim>\<open>Object.prototype\<close>, which has no method \<^verbatim>\<open>push\<close> or \<^verbatim>\<open>pop\<close>: the call is a
  TypeError either way, with a message of the engine's.
\<close>

definition push :: "string \<Rightarrow> ref \<Rightarrow> parser \<Rightarrow> (exn \<times> parser) + parser" where
  "push t token p =
     (let p1 = p\<lparr>count := count p + 1, stack := stack p @ [token]\<rparr>
      in case sets p1 t of
           None \<Rightarrow> Inl (TypeError ''this.sets[type].push is not a function'', p1)
         | Some s \<Rightarrow> Inr (p1\<lparr>sets := (sets p1)(t \<mapsto> s @ [token])\<rparr>))"

text \<open>
  \<^verbatim>\<open>pop(type)\<close>: \<^verbatim>\<open>Array.prototype.pop\<close> on an empty array leaves it empty and
  returns undefined (\<open>None\<close>).
\<close>

definition pop :: "string \<Rightarrow> parser \<Rightarrow> (exn \<times> parser) + (ref option \<times> parser)" where
  "pop t p =
     (let p1 = p\<lparr>count := count p - 1, stack := butlast (stack p)\<rparr>
      in case sets p1 t of
           None \<Rightarrow> Inl (TypeError ''this.sets[type].pop is not a function'', p1)
         | Some s \<Rightarrow>
             Inr (if s = [] then None else Some (last s),
                  p1\<lparr>sets := (sets p1)(t \<mapsto> butlast s)\<rparr>))"

text \<open>
  The arguments of \<^verbatim>\<open>isType(type, node)\<close> are JavaScript values: the caller in
  \<^verbatim>\<open>pair\<close> passes the popped node first and the kind's name second.
  \<^verbatim>\<open>node && node.type === type\<close> reads the property \<^verbatim>\<open>type\<close> of its second argument
  (undefined on a string) and compares it strictly with the first.
\<close>

datatype jsval =
    JUndefined
  | JNull
  | JBool bool
  | JNumber int
  | JString string
  | JObject ref

fun truthy :: "jsval \<Rightarrow> bool" where
  "truthy JUndefined = False"
| "truthy JNull = False"
| "truthy (JBool b) = b"
| "truthy (JNumber n) = (n \<noteq> 0)"
| "truthy (JString s) = (s \<noteq> [])"
| "truthy (JObject r) = True"

text \<open>\<^verbatim>\<open>v.type\<close> for a truthy \<open>v\<close>; the nodes are the only objects.\<close>

fun type_property :: "ast \<Rightarrow> jsval \<Rightarrow> jsval" where
  "type_property t (JObject r) =
     (case get_node t r of Some k \<Rightarrow> JString (type (node_of k)) | None \<Rightarrow> JUndefined)"
| "type_property t v = JUndefined"

definition isType :: "ast \<Rightarrow> jsval \<Rightarrow> jsval \<Rightarrow> bool" where
  "isType t type_arg node_arg = (truthy node_arg \<and> type_property t node_arg = type_arg)"

definition prev :: "parser \<Rightarrow> ref" where
  "prev p = (if stack p \<noteq> [] then last (stack p) else [])"

definition consume :: "nat \<Rightarrow> parser \<Rightarrow> parser" where
  "consume len p = p\<lparr>input := drop len (input p)\<rparr>"

definition updatePosition :: "string \<Rightarrow> nat \<Rightarrow> parser \<Rightarrow> parser" where
  "updatePosition str len p =
     consume len (p\<lparr>column := column p + len, parsed_text := parsed_text p @ str\<rparr>)"

definition match :: "regex \<Rightarrow> parser \<Rightarrow> rmatch option \<times> parser" where
  "match regex p =
     (case regex (input p) of
        None \<Rightarrow> (None, p)
      | Some m \<Rightarrow> (Some m, updatePosition (m0 m) (length (m0 m)) p))"

definition push_child :: "ref \<Rightarrow> ast \<Rightarrow> parser \<Rightarrow> (exn \<times> parser) + parser" where
  "push_child target child p =
     (case nodes_push (ast p) target child of
        None \<Rightarrow> Inl (TypeError ''Cannot read property push of undefined'', p)
      | Some t \<Rightarrow> Inr (p\<lparr>ast := t\<rparr>))"

text \<open>The handler \<^verbatim>\<open>capture(type, regex)\<close> registers.\<close>

definition capture_fn :: "string \<Rightarrow> regex \<Rightarrow> parser \<Rightarrow> (exn \<times> parser) + parser" where
  "capture_fn t regex p =
     (let parsed0 = parsed_text p; start = position_start p
      in case match regex p of
           (None, p1) \<Rightarrow> Inr p1
         | (Some m, p1) \<Rightarrow>
             if m0 m = [] then Inr p1
             else
               let pr = prev p1;
                   n = pos start p1 ((new_node t)\<lparr>parsed := Some parsed0,
                         rest := Some (input p1), val := Some (m0 m)\<rparr>)
               in push_child pr (Leaf (n\<lparr>parent := Some pr\<rparr>)) p1)"

text \<open>The handler \<^verbatim>\<open>pair\<close> registers under \<^verbatim>\<open>type + '.open'\<close>.\<close>

definition open_fn :: "string \<Rightarrow> regex \<Rightarrow> parser \<Rightarrow> (exn \<times> parser) + parser" where
  "open_fn t openRegex p =
     (let parsed0 = parsed_text p; start = position_start p
      in case match openRegex p of
           (None, p1) \<Rightarrow> Inr p1
         | (Some m, p1) \<Rightarrow>
             if m0 m = [] then Inr p1
             else
               let pr = prev p1;
                   p2 = p1\<lparr>specialChars := True\<rparr>;
                   self = child_ref (ast p2) pr;
                   opn = pos start p2 ((new_node (t @ ''.open''))\<lparr>val := Some (m0 m)\<rparr>);
                   n = pos start p2 ((new_node t)\<lparr>prefix := m1 m, parsed := Some parsed0,
                         rest := Some (input p2)\<rparr>)
               in (case push t self p2 of
                     Inl e \<Rightarrow> Inl e
                   | Inr p3 \<Rightarrow>
                       push_child pr
                         (Branch (n\<lparr>parent := Some pr\<rparr>) [Leaf (opn\<lparr>parent := Some self\<rparr>)])
                         p3))"

text \<open>The handler \<^verbatim>\<open>pair\<close> registers under \<^verbatim>\<open>type + '.close'\<close>.\<close>

definition close_fn :: "string \<Rightarrow> regex \<Rightarrow> parser \<Rightarrow> (exn \<times> parser) + parser" where
  "close_fn t closeRegex p =
     (let start = position_start p
      in case match closeRegex p of
           (None, p1) \<Rightarrow> Inr p1
         | (Some m, p1) \<Rightarrow>
             (case pop t p1 of
                Inl e \<Rightarrow> Inl e
              | Inr (opn, p2) \<Rightarrow>
                  if isType (ast p2) (case opn of None \<Rightarrow> JUndefined | Some r \<Rightarrow> JObject r)
                       (JString t)
                  then Inl (Error (''missing opening '' @ dq @ t @ dq), p2)
                  else
                    (case opn of
                       None \<Rightarrow> Inl (TypeError ''Cannot read property nodes of undefined'', p2)
                     | Some r \<Rightarrow>
                         let n = pos start p2 ((new_node (t @ ''.close''))\<lparr>
                                   rest := Some (input p2), suffix := m1 m,
                                   val := Some (m0 m)\<rparr>)
                         in push_child r (Leaf (n\<lparr>parent := Some r\<rparr>)) p2)))"

fun run_handler :: "handler \<Rightarrow> parser \<Rightarrow> (exn \<times> parser) + parser" where
  "run_handler (Capture t regex) p = capture_fn t regex p"
| "run_handler (PairOpen t regex) p = open_fn t regex p"
| "run_handler (PairClose t regex) p = close_fn t regex p"

definition capture :: "string \<Rightarrow> regex \<Rightarrow> parser \<Rightarrow> parser" where
  "capture t regex p = set_parser t (Capture t regex) p"

definition pair :: "string \<Rightarrow> regex \<Rightarrow> regex \<Rightarrow> parser \<Rightarrow> parser" where
  "pair t openRegex closeRegex p =
     set_parser (t @ ''.close'') (PairClose t closeRegex)
       (set_parser (t @ ''.open'') (PairOpen t openRegex) p)"

text \<open>
  \<^verbatim>\<open>eos()\<close>: the end-of-string node, pushed onto \<^verbatim>\<open>prev()\<close>. The field
  \<open>append_text\<close> is \<^verbatim>\<open>this.append\<close>, which the constructor leaves undefined.
\<close>

definition eos :: "parser \<Rightarrow> (exn \<times> parser) + parser" where
  "eos p =
     (let start = position_start p
      in if input p \<noteq> [] then Inr p
         else
           let pr = prev p;
               n = pos start p ((new_node ''eos'')\<lparr>
                     val := Some (case append_text p of None \<Rightarrow> [] | Some a \<Rightarrow> a)\<rparr>)
           in push_child pr (Leaf n) p)"

text \<open>\<^verbatim>\<open>next()\<close>: every handler of the table, in the order of \<^verbatim>\<open>types\<close>.\<close>

fun next_from :: "string list \<Rightarrow> parser \<Rightarrow> (exn \<times> parser) + parser" where
  "next_from [] p = Inr p"
| "next_from (t # ts) p =
     (case parsers p t of
        None \<Rightarrow> Inl (TypeError ''Cannot read property call of undefined'', p)
      | Some h \<Rightarrow>
          (case run_handler h p of
             Inl e \<Rightarrow> Inl e
           | Inr p1 \<Rightarrow> next_from ts p1))"

definition next_pass :: "parser \<Rightarrow> (exn \<times> parser) + parser" where
  "next_pass p = next_from (types p) p"

text \<open>
  What a handler leaves of the input is a suffix of what it found: this is what makes
  the loop of \<^verbatim>\<open>parse\<close> a total function.
\<close>

lemma match_input:
  "match regex p = (r, p1) \<Longrightarrow> \<exists>n. input p1 = drop n (input p)"
  by (auto simp: match_def updatePosition_def consume_def split: option.splits
      intro: exI[of _ 0])

lemma push_child_input: "push_child r c p = Inr p1 \<Longrightarrow> input p1 = input p"
  by (auto simp: push_child_def split: option.splits)

lemma push_input: "push t r p = Inr p1 \<Longrightarrow> input p1 = input p"
  by (auto simp: push_def Let_def split: option.splits)

lemma pop_input: "pop t p = Inr (r, p1) \<Longrightarrow> input p1 = input p"
  by (auto simp: pop_def Let_def split: option.splits)

lemma capture_fn_input:
  assumes "capture_fn t regex p = Inr p1"
  shows "\<exists>n. input p1 = drop n (input p)"
proof (cases "match regex p")
  case (Pair r q)
  from match_input[OF Pair] obtain n where n: "input q = drop n (input p)" ..
  from assms Pair have "p1 = q \<or> (\<exists>pr c. push_child pr c q = Inr p1)"
    by (auto simp: capture_fn_def Let_def split: option.splits if_splits)
  then have "input p1 = input q"
    by (auto dest: push_child_input)
  with n show ?thesis by auto
qed

lemma open_fn_input:
  assumes "open_fn t regex p = Inr p1"
  shows "\<exists>n. input p1 = drop n (input p)"
proof (cases "match regex p")
  case (Pair r q)
  from match_input[OF Pair] obtain n where n: "input q = drop n (input p)" ..
  from assms Pair have
    "p1 = q \<or> (\<exists>pr c s p3. push t s (q\<lparr>specialChars := True\<rparr>) = Inr p3
        \<and> push_child pr c p3 = Inr p1)"
    by (auto simp: open_fn_def Let_def split: option.splits if_splits sum.splits)
  then have "input p1 = input q"
    by (auto dest!: push_child_input push_input)
  with n show ?thesis by auto
qed

lemma close_fn_input:
  assumes "close_fn t regex p = Inr p1"
  shows "\<exists>n. input p1 = drop n (input p)"
proof (cases "match regex p")
  case (Pair r q)
  from match_input[OF Pair] obtain n where n: "input q = drop n (input p)" ..
  from assms Pair have
    "p1 = q \<or> (\<exists>pr c o2 p2. pop t q = Inr (o2, p2) \<and> push_child pr c p2 = Inr p1)"
    by (auto simp: close_fn_def Let_def split: option.splits if_splits sum.splits prod.splits)
  then have "input p1 = input q"
    by (auto dest!: push_child_input pop_input)
  with n show ?thesis by auto
qed

lemma run_handler_input:
  "run_handler h p = Inr p1 \<Longrightarrow> \<exists>n. input p1 = drop n (input p)"
  by (cases h) (auto dest: capture_fn_input open_fn_input close_fn_input)

lemma next_from_input:
  "next_from ts p = Inr p1 \<Longrightarrow> \<exists>n. input p1 = drop n (input p)"
proof (induction ts arbitrary: p)
  case Nil
  then show ?case by (auto intro: exI[of _ 0])
next
  case (Cons t ts)
  from Cons.prems obtain h q where h: "parsers p t = Some h"
    and q: "run_handler h p = Inr q" and r: "next_from ts q = Inr p1"
    by (auto split: option.splits sum.splits)
  from run_handler_input[OF q] obtain n where "input q = drop n (input p)" ..
  moreover from Cons.IH[OF r] obtain m where "input p1 = drop m (input q)" ..
  ultimately have "input p1 = drop (m + n) (input p)" by simp
  then show ?case ..
qed

lemma next_pass_shorter:
  assumes "next_pass p = Inr p1" and "input p \<noteq> input p1"
  shows "length (input p1) < length (input p)"
proof -
  from assms(1) obtain n where n: "input p1 = drop n (input p)"
    unfolding next_pass_def by (blast dest: next_from_input)
  with assms(2) have "n \<noteq> 0" by (cases n) auto
  moreover from n assms(2) have "input p \<noteq> []" by auto
  ultimately show ?thesis using n by simp
qed

text \<open>
  The loop of \<^verbatim>\<open>parse\<close>: \<^verbatim>\<open>while (this.input)\<close>, one pass of \<^verbatim>\<open>next\<close>, and the
  error when the pass left a non-empty input as it was.
\<close>

function parse_loop :: "parser \<Rightarrow> (exn \<times> parser) + parser" where
  "parse_loop p =
     (if input p = [] then Inr p
      else
        (case next_pass p of
           Inl e \<Rightarrow> Inl e
         | Inr p1 \<Rightarrow>
             if input p1 \<noteq> [] \<and> input p = input p1
             then Inl (Error (''no parsers registered for: '' @ dq @ [hd (input p1)] @ dq), p1)
             else parse_loop p1))"
  by pat_completeness auto
termination
proof (relation "measure (\<lambda>p. length (input p))")
  show "wf (measure (\<lambda>p. length (input p)))" by simp
next
  fix p :: parser and x2
  assume "input p \<noteq> []" and "next_pass p = Inr x2"
    and "\<not> (input x2 \<noteq> [] \<and> input p = input x2)"
  then have "input p \<noteq> input x2" by auto
  with \<open>next_pass p = Inr x2\<close> have "length (input x2) < length (input p)"
    by (rule next_pass_shorter)
  then show "(x2, p) \<in> measure (\<lambda>p. length (input p))" by simp
qed

declare parse_loop.simps [simp del]

text \<open>
  \<^verbatim>\<open>parse(input)\<close>. \<^verbatim>\<open>this.ast.errors = this.errors\<close> makes the error list of the
  document the parser's own; \<^verbatim>\<open>throw this.error(...)\<close> throws what \<^verbatim>\<open>error\<close> throws,
  or else what it returns, which is undefined.
\<close>

definition type_at :: "ast \<Rightarrow> ref \<Rightarrow> string" where
  "type_at t r = (case get_node t r of Some k \<Rightarrow> type (node_of k) | None \<Rightarrow> ''undefined'')"

definition parse :: "string \<Rightarrow> parser \<Rightarrow> (exn \<times> parser) + parser" where
  "parse inp p0 =
     (case parse_loop (p0\<lparr>orig := Some inp, input := inp\<rparr>) of
        Inl e \<Rightarrow> Inl e
      | Inr p \<Rightarrow>
          if stack p \<noteq> [] \<and> strict (options p)
          then
            (let nd = last (stack p);
                 p1 = p\<lparr>stack := butlast (stack p)\<rparr>
             in case error (''missing opening '' @ type_at (ast p1) nd @ '': '' @ dq
                       @ (case orig p1 of None \<Rightarrow> ''undefined'' | Some s \<Rightarrow> s) @ dq) p1 of
                  Inl e \<Rightarrow> Inl e
                | Inr p2 \<Rightarrow> Inl (Undefined, p2))
          else eos p)"

section \<open>The snapdragon parser\<close>

text \<open>
  The middleware functions of \<^verbatim>\<open>this.fns\<close> are arbitrary functions of the parser
  (\<^verbatim>\<open>fn.call(this, this.input, idx)\<close>); the list is passed beside the parser's record.
  A middleware returns a node, or a falsy value (\<open>None\<close>), or throws.
\<close>

record snapdragon =
  options_sd :: options
  original :: string
  parsed_sd :: string
  input_sd :: string
  errors_sd :: "err list"
  nodes :: "ast list"
  sets_sd :: "string \<Rightarrow> ast list option"
  lineno :: int
  column_sd :: int

type_synonym middleware =
  "string \<Rightarrow> nat \<Rightarrow> snapdragon \<Rightarrow> (exn \<times> snapdragon) + (ast option \<times> snapdragon)"

definition Parser_sd :: "options \<Rightarrow> snapdragon" where
  "Parser_sd opts =
     \<lparr>options_sd = opts, original = [], parsed_sd = [], input_sd = [], errors_sd = [],
      nodes = [],
      sets_sd = [''brackets'' \<mapsto> [], ''braces'' \<mapsto> [], ''parens'' \<mapsto> []],
      lineno = 1, column_sd = 1\<rparr>"

definition newline :: char where
  "newline = CHR 0x0A"

text \<open>\<^verbatim>\<open>str.lastIndexOf(c)\<close>: the last index of \<open>c\<close>, or \<open>-1\<close>.\<close>

fun lastIndexOf :: "string \<Rightarrow> char \<Rightarrow> int" where
  "lastIndexOf [] c = -1"
| "lastIndexOf (x # xs) c =
     (let i = lastIndexOf xs c
      in if i \<noteq> -1 then i + 1 else if x = c then 0 else -1)"

text \<open>
  \<^verbatim>\<open>updatePosition(str, len)\<close> of the snapdragon parser: \<^verbatim>\<open>str.match(/\n/g)\<close> is the
  list of the newlines of \<open>str\<close>, null when there is none; \<^verbatim>\<open>~i\<close> is zero exactly
  for \<open>i = -1\<close>.
\<close>

definition updatePosition_sd :: "string \<Rightarrow> nat \<Rightarrow> snapdragon \<Rightarrow> snapdragon" where
  "updatePosition_sd str len p =
     (let lines = filter (\<lambda>c. c = newline) str;
          p1 = (if lines \<noteq> [] then p\<lparr>lineno := lineno p + int (length lines)\<rparr> else p);
          i = lastIndexOf str newline
      in p1\<lparr>column_sd := (if i \<noteq> -1 then int len - i else column_sd p1 + int len)\<rparr>)"

definition advance :: "string \<Rightarrow> snapdragon \<Rightarrow> snapdragon" where
  "advance str p =
     (let len = length str;
          p1 = updatePosition_sd str len (p\<lparr>parsed_sd := parsed_sd p @ str\<rparr>)
      in p1\<lparr>input_sd := drop len (input_sd p1)\<rparr>)"

definition match_sd :: "regex \<Rightarrow> snapdragon \<Rightarrow> rmatch option \<times> snapdragon" where
  "match_sd re p =
     (case re (input_sd p) of
        None \<Rightarrow> (None, p)
      | Some m \<Rightarrow> (Some m, advance (m0 m) p))"

definition position_start_sd :: "snapdragon \<Rightarrow> point" where
  "position_start_sd p = \<lparr>line = Some (lineno p), col = column_sd p\<rparr>"

definition pos_sd :: "point \<Rightarrow> snapdragon \<Rightarrow> node \<Rightarrow> node" where
  "pos_sd start p n =
     n\<lparr>position := Some \<lparr>pos_start = start,
                          pos_end = \<lparr>line = Some (lineno p), col = column_sd p\<rparr>\<rparr>\<rparr>"

text \<open>
  Modelled from the spec: the function \<^verbatim>\<open>this.error\<close> of \<^verbatim>\<open>./error\<close> is not among
  the sources. By the spec an error is raised at once unless the configuration
  collects errors, and then it joins the error list; this is what \<^verbatim>\<open>error\<close> of the
  extglob parser does, with the line beside the column.
\<close>

definition make_err_sd :: "string \<Rightarrow> snapdragon \<Rightarrow> err" where
  "make_err_sd msg p =
     \<lparr>message = opt_source (options_sd p) @ '' line:'' @ string_of_nat (nat (lineno p))
        @ '' column:'' @ string_of_nat (nat (column_sd p)) @ '': '' @ msg,
      reason = msg, err_column = nat (column_sd p), err_source = opt_source (options_sd p)\<rparr>"

definition error_sd :: "string \<Rightarrow> snapdragon \<Rightarrow> (exn \<times> snapdragon) + snapdragon" where
  "error_sd msg p =
     (if silent (options_sd p) then Inr (p\<lparr>errors_sd := errors_sd p @ [make_err_sd msg p]\<rparr>)
      else Inl (FormattedError (make_err_sd msg p), p))"

text \<open>\<^verbatim>\<open>err.message\<close> of an error object.\<close>

fun exn_message :: "exn \<Rightarrow> string" where
  "exn_message (Error m) = m"
| "exn_message (FormattedError e) = message e"
| "exn_message (TypeError m) = m"
| "exn_message Undefined = []"

text \<open>
  \<^verbatim>\<open>run()\<close>: the first middleware that returns a node ends the pass; what a
  middleware throws is thrown again through \<^verbatim>\<open>this.error(err.message)\<close>, and
  reading \<^verbatim>\<open>message\<close> of a thrown undefined is a TypeError of its own.
\<close>

fun run_from :: "middleware list \<Rightarrow> nat \<Rightarrow> snapdragon \<Rightarrow> (exn \<times> snapdragon) + (ast option \<times> snapdragon)" where
  "run_from [] idx p = Inr (None, p)"
| "run_from (fn # fns) idx p =
     (case fn (input_sd p) idx p of
        Inl (Undefined, p1) \<Rightarrow>
          Inl (TypeError ''Cannot read property message of undefined'', p1)
      | Inl (e, p1) \<Rightarrow>
          (case error_sd (exn_message e) p1 of
             Inl e1 \<Rightarrow> Inl e1
           | Inr p2 \<Rightarrow> Inl (Undefined, p2))
      | Inr (Some n, p1) \<Rightarrow> Inr (Some n, p1)
      | Inr (None, p1) \<Rightarrow> run_from fns (Suc idx) p1)"

definition run :: "middleware list \<Rightarrow> snapdragon \<Rightarrow> (exn \<times> snapdragon) + (ast option \<times> snapdragon)" where
  "run fns p = run_from fns 0 p"

text \<open>
  The loop of \<^verbatim>\<open>parse\<close>:
  \<^verbatim>\<open>while (this.input.length && (node = this.run())) this.nodes.push(node)\<close>.
  Nothing bounds the number of passes, so the loop is a partial function: \<open>None\<close> is
  a loop that never ends.
\<close>

partial_function (option) parse_loop_sd ::
  "middleware list \<Rightarrow> snapdragon \<Rightarrow> ((exn \<times> snapdragon) + snapdragon) option" where
  "parse_loop_sd fns p =
     (if input_sd p = [] then Some (Inr p)
      else
        (case run fns p of
           Inl e \<Rightarrow> Some (Inl e)
         | Inr (None, p1) \<Rightarrow> Some (Inr p1)
         | Inr (Some n, p1) \<Rightarrow> parse_loop_sd fns (p1\<lparr>nodes := nodes p1 @ [n]\<rparr>)))"

declare parse_loop_sd.simps [code]

fun typeof :: "jsval \<Rightarrow> string" where
  "typeof JUndefined = ''undefined''"
| "typeof JNull = ''object''"
| "typeof (JBool b) = ''boolean''"
| "typeof (JNumber n) = ''number''"
| "typeof (JString s) = ''string''"
| "typeof (JObject r) = ''object''"

fun string_value :: "jsval \<Rightarrow> string" where
  "string_value (JString s) = s"
| "string_value v = []"

text \<open>\<^verbatim>\<open>parse(input)\<close>; \<open>string_value\<close> is read under the type test only.\<close>

definition parse_sd ::
  "middleware list \<Rightarrow> jsval \<Rightarrow> snapdragon \<Rightarrow> ((exn \<times> snapdragon) + snapdragon) option" where
  "parse_sd fns v p =
     (if typeof v \<noteq> ''string'' then Some (Inl (TypeError ''expected a string'', p))
      else parse_loop_sd fns
             (p\<lparr>original := original p @ string_value v,
                input_sd := input_sd p @ string_value v\<rparr>))"

text \<open>
  The middleware the documentation of \<^verbatim>\<open>match\<close> gives:
  \<^verbatim>\<open>function dot() { var pos = this.position(); var m = this.match(/^\./);
  if (!m) return; return pos({type: 'dot', val: m[0]}); }\<close>,
  for any type and expression.
\<close>

definition rule_mw :: "string \<Rightarrow> regex \<Rightarrow> middleware" where
  "rule_mw t re s idx p =
     (let start = position_start_sd p
      in case match_sd re p of
           (None, p1) \<Rightarrow> Inr (None, p1)
         | (Some m, p1) \<Rightarrow>
             Inr (Some (Leaf (pos_sd start p1 ((new_node t)\<lparr>val := Some (m0 m)\<rparr>))), p1))"

text \<open>The parser as a call leaves it, whether the call returned or threw.\<close>

definition outcome_state :: "(exn \<times> snapdragon) + ('a \<times> snapdragon) \<Rightarrow> snapdragon" where
  "outcome_state x = (case x of Inl (e, p) \<Rightarrow> p | Inr (n, p) \<Rightarrow> p)"

definition final_state :: "(exn \<times> snapdragon) + snapdragon \<Rightarrow> snapdragon" where
  "final_state x = (case x of Inl (e, p) \<Rightarrow> p | Inr p \<Rightarrow> p)"

text \<open>A middleware that does not assign \<^verbatim>\<open>this.original\<close>.\<close>

definition keeps_original :: "middleware \<Rightarrow> bool" where
  "keeps_original fn = (\<forall>s i p. original (outcome_state (fn s i p)) = original p)"

section \<open>The renderer\<close>

text \<open>
  A render function is registered per node type. The functions considered are the
  ones a renderer's documentation and the parser's trees call for:
  \<^verbatim>\<open>function(node) { return this.emit(node.val) }\<close>,
  \<^verbatim>\<open>function(node) { return this.emit(str) }\<close> for a fixed string, and
  \<^verbatim>\<open>function(node) { return this.mapVisit(node.nodes) }\<close>.
  Source maps are off (\<^verbatim>\<open>opts.sourcemap\<close> is falsy), so \<^verbatim>\<open>emit\<close> is the method of the
  prototype, which returns its argument.

  \<^verbatim>\<open>this.renderers = {}\<close> is an ordinary object: a name that is no property of its
  own is looked up on \<^verbatim>\<open>Object.prototype\<close>, and for the name of one of its methods
  \<^verbatim>\<open>this.renderers[node.type]\<close> is that method, \<open>Inherited\<close>, though nothing was
  registered. (\<^verbatim>\<open>__proto__\<close> is \<^verbatim>\<open>Object.prototype\<close> itself, an object and no
  function.)
\<close>

datatype render_fn = EmitVal | EmitStr string | MapVisitNodes | Inherited string

text \<open>
  What a render function returns, and what \<^verbatim>\<open>+\<close> makes of it in \<^verbatim>\<open>buf += ...\<close>:
  a string, undefined, a boolean, or an object without a \<^verbatim>\<open>toString\<close> of its own.
\<close>

datatype rvalue = VString string | VUndefined | VBool bool | VObject

fun string_of :: "rvalue \<Rightarrow> string" where
  "string_of (VString s) = s"
| "string_of VUndefined = ''undefined''"
| "string_of (VBool b) = (if b then ''true'' else ''false'')"
| "string_of VObject = ''[object Object]''"

fun value_of :: "string option \<Rightarrow> rvalue" where
  "value_of None = VUndefined"
| "value_of (Some s) = VString s"

record renderer =
  options_r :: options
  rendered :: string
  renderers :: "string \<Rightarrow> render_fn option"
  ast_r :: "ast option"
  errors_r :: "err list"

definition Renderer :: "options \<Rightarrow> renderer" where
  "Renderer opts =
     \<lparr>options_r = opts, rendered = [], renderers = Map.empty, ast_r = None, errors_r = []\<rparr>"

text \<open>
  \<^verbatim>\<open>set(name, fn)\<close>, for a name other than \<^verbatim>\<open>__proto__\<close> (the one name whose
  assignment adds no property).
\<close>

definition set_renderer :: "string \<Rightarrow> render_fn \<Rightarrow> renderer \<Rightarrow> renderer" where
  "set_renderer name fn r = r\<lparr>renderers := (renderers r)(name \<mapsto> fn)\<rparr>"

text \<open>The methods of \<^verbatim>\<open>Object.prototype\<close>, and \<^verbatim>\<open>this.renderers[name]\<close>.\<close>

definition object_prototype :: "string list" where
  "object_prototype =
     [''constructor'', ''hasOwnProperty'', ''isPrototypeOf'', ''propertyIsEnumerable'',
      ''toLocaleString'', ''toString'', ''valueOf'', ''__defineGetter__'',
      ''__defineSetter__'', ''__lookupGetter__'', ''__lookupSetter__'']"

definition lookup_renderer :: "renderer \<Rightarrow> string \<Rightarrow> render_fn option" where
  "lookup_renderer r name =
     (case renderers r name of
        Some fn \<Rightarrow> Some fn
      | None \<Rightarrow> if name \<in> set object_prototype then Some (Inherited name) else None)"

text \<open>
  \<^verbatim>\<open>fn.call(this, node, nodes, i)\<close> for an inherited method, \<open>None\<close> where it throws
  a TypeError. \<^verbatim>\<open>Object(node)\<close> is the node and \<^verbatim>\<open>valueOf\<close> the renderer;
  \<^verbatim>\<open>toString\<close> and \<^verbatim>\<open>toLocaleString\<close> give \<^verbatim>\<open>[object Object]\<close>; the renderer has no
  property named by a node, and is the prototype of none; it has no accessor to look
  up; and \<^verbatim>\<open>__defineGetter__\<close> and \<^verbatim>\<open>__defineSetter__\<close> refuse \<^verbatim>\<open>nodes\<close>, which is no
  function.
\<close>

definition inherited_call :: "string \<Rightarrow> rvalue option" where
  "inherited_call name =
     (if name \<in> set [''constructor'', ''valueOf''] then Some VObject
      else if name \<in> set [''toString'', ''toLocaleString''] then Some (VString ''[object Object]'')
      else if name \<in> set [''hasOwnProperty'', ''isPrototypeOf'', ''propertyIsEnumerable'']
        then Some (VBool False)
      else if name \<in> set [''__lookupGetter__'', ''__lookupSetter__''] then Some VUndefined
      else None)"

definition emit :: "string option \<Rightarrow> string option" where
  "emit str = str"

text \<open>What \<^verbatim>\<open>+\<close> makes of a value that may be undefined.\<close>

definition to_string :: "string option \<Rightarrow> string" where
  "to_string v = (case v of None \<Rightarrow> ''undefined'' | Some s \<Rightarrow> s)"

text \<open>
  Modelled from the spec: \<^verbatim>\<open>this.error\<close> of the renderer comes from \<^verbatim>\<open>./error\<close>, which
  is not among the sources. By the spec the error of an unregistered renderer is always
  raised at once; \<^verbatim>\<open>throw this.error(msg)\<close> throws in any case.
\<close>

definition error_r :: "string \<Rightarrow> renderer \<Rightarrow> exn \<times> renderer" where
  "error_r msg r =
     (FormattedError \<lparr>message = opt_source (options_r r) @ '': '' @ msg, reason = msg,
        err_column = 0, err_source = opt_source (options_r r)\<rparr>, r)"

text \<open>
  \<^verbatim>\<open>visit(node, nodes, i)\<close> and \<^verbatim>\<open>mapVisit(nodes)\<close>; \<open>mapVisit_from\<close> is the
  \<^verbatim>\<open>for\<close> loop of \<^verbatim>\<open>mapVisit\<close> with its buffer. \<open>call_fn\<close> is
  \<^verbatim>\<open>fn.call(this, node, nodes, i)\<close> for the functions above.
\<close>

definition not_registered :: "node \<Rightarrow> string" where
  "not_registered n =
     ''renderer '' @ dq @ type n @ dq @ '' is not registered. Failed to render string ''
       @ dq @ to_string (val n) @ dq"

fun visit :: "ast \<Rightarrow> renderer \<Rightarrow> (exn \<times> renderer) + (rvalue \<times> renderer)"
  and call_fn :: "render_fn \<Rightarrow> ast \<Rightarrow> renderer \<Rightarrow> (exn \<times> renderer) + (rvalue \<times> renderer)"
  and mapVisit :: "ast list \<Rightarrow> renderer \<Rightarrow> (exn \<times> renderer) + (string \<times> renderer)"
  and mapVisit_from :: "ast list \<Rightarrow> string \<Rightarrow> renderer \<Rightarrow> (exn \<times> renderer) + (string \<times> renderer)"
where
  "visit k r =
     (case lookup_renderer r (type (node_of k)) of
        None \<Rightarrow> Inl (error_r (not_registered (node_of k)) r)
      | Some fn \<Rightarrow> call_fn fn k r)"
| "call_fn EmitVal k r = Inr (value_of (emit (val (node_of k))), r)"
| "call_fn (EmitStr s) k r = Inr (value_of (emit (Some s)), r)"
| "call_fn MapVisitNodes (Leaf n) r =
     Inl (TypeError ''Cannot read property length of undefined'', r)"
| "call_fn MapVisitNodes (Branch n ks) r =
     (case mapVisit ks r of
        Inl e \<Rightarrow> Inl e
      | Inr (buf, r1) \<Rightarrow> Inr (VString buf, r1))"
| "call_fn (Inherited name) k r =
     (case inherited_call name of
        None \<Rightarrow> Inl (TypeError ''Getter must be a function'', r)
      | Some v \<Rightarrow> Inr (v, r))"
| "mapVisit ks r =
     (case mapVisit_from ks [] r of
        Inl e \<Rightarrow> Inl e
      | Inr (buf, r1) \<Rightarrow> Inr (buf, r1\<lparr>rendered := rendered r1 @ buf\<rparr>))"
| "mapVisit_from [] buf r = Inr (buf, r)"
| "mapVisit_from (k # ks) buf r =
     (case visit k r of
        Inl e \<Rightarrow> Inl e
      | Inr (str, r1) \<Rightarrow> mapVisit_from ks (buf @ string_of str) r1)"

declare visit.simps [simp del] mapVisit.simps [simp del]

text \<open>\<^verbatim>\<open>render(ast)\<close> returns the renderer; the text is in \<^verbatim>\<open>rendered\<close>.\<close>

definition render :: "ast \<Rightarrow> renderer \<Rightarrow> (exn \<times> renderer) + renderer" where
  "render t r =
     (let r1 = r\<lparr>ast_r := Some t\<rparr>
      in case t of
           Leaf n \<Rightarrow> Inl (TypeError ''Cannot read property length of undefined'', r1)
         | Branch n ks \<Rightarrow>
             (case mapVisit ks r1 of
                Inl e \<Rightarrow> Inl e
              | Inr (buf, r2) \<Rightarrow> Inr r2))"

section \<open>Predicates and sample configurations for the properties\<close>

text \<open>The options the two constructors start from, nothing else set.\<close>

definition opts0 :: options where
  "opts0 = \<lparr>opt_source = ''string'', strict = False, silent = False\<rparr>"

definition extglob_opts :: options where
  "extglob_opts = \<lparr>opt_source = ''extglob'', strict = False, silent = False\<rparr>"

text \<open>What a handler of the extglob parser never assigns.\<close>

definition same_config :: "parser \<Rightarrow> parser \<Rightarrow> bool" where
  "same_config p q = (options q = options p \<and> append_text q = append_text p \<and> parsers q = parsers p
     \<and> types q = types p \<and> orig q = orig p \<and> errors q = errors p)"

text \<open>
  A reference designates an object with a \<^verbatim>\<open>nodes\<close> array; in a well-formed parser
  the root and every entry of the stacks do.
\<close>

definition is_branch :: "ast \<Rightarrow> ref \<Rightarrow> bool" where
  "is_branch t r = (case get_node t r of Some (Branch n ks) \<Rightarrow> True | _ \<Rightarrow> False)"

definition wf_refs :: "parser \<Rightarrow> bool" where
  "wf_refs p = (is_branch (ast p) [] \<and> list_all (is_branch (ast p)) (stack p)
     \<and> (\<forall>t s. sets p t = Some s \<longrightarrow> list_all (is_branch (ast p)) s))"

text \<open>The node \<^verbatim>\<open>eos\<close> makes.\<close>

definition eos_node :: "parser \<Rightarrow> node" where
  "eos_node p = pos (position_start p) p ((new_node ''eos'')\<lparr>
                     val := Some (case append_text p of None \<Rightarrow> [] | Some a \<Rightarrow> a)\<rparr>)"

text \<open>
  The keys of \<^verbatim>\<open>sets\<close>, the number of entries of all its stacks, and the agreement
  in size of the flattened stack, the stacks of the kinds and the counter.
\<close>

definition kinds :: "string list" where
  "kinds = [''single'', ''double'', ''bracket'', ''brace'', ''paren'']"

definition open_count :: "parser \<Rightarrow> nat" where
  "open_count p = sum_list (map (\<lambda>k. case sets p k of None \<Rightarrow> 0 | Some s \<Rightarrow> length s) kinds)"


text \<open>
  The nodes of a tree, the trees whose every node has a render function, and the
  outcomes of the renderer that are not the error of an unregistered renderer.
\<close>

fun all_nodes :: "ast \<Rightarrow> ast list" where
  "all_nodes (Leaf n) = [Leaf n]"
| "all_nodes (Branch n ks) = Branch n ks # concat (map all_nodes ks)"

definition registered :: "renderer \<Rightarrow> ast \<Rightarrow> bool" where
  "registered r k = list_all (\<lambda>n. renderers r (type (node_of n)) \<noteq> None) (all_nodes k)"

fun is_TypeError :: "exn \<Rightarrow> bool" where
  "is_TypeError (TypeError m) = True"
| "is_TypeError e = False"

text \<open>A node the renderer maps to its value or to a fixed string.\<close>

definition emits :: "renderer \<Rightarrow> ast \<Rightarrow> bool" where
  "emits r k = (case renderers r (type (node_of k)) of
                  Some EmitVal \<Rightarrow> True | Some (EmitStr s) \<Rightarrow> True | _ \<Rightarrow> False)"

definition fine :: "renderer \<Rightarrow> (exn \<times> renderer) + ('a \<times> renderer) \<Rightarrow> bool" where
  "fine r x = (case x of Inl (e, r1) \<Rightarrow> is_TypeError e | Inr (s, r1) \<Rightarrow> renderers r1 = renderers r)"

text \<open>
  Two tables of handlers: parentheses alone, and parentheses with square brackets
  registered after them.
\<close>

definition paren_parser :: "options \<Rightarrow> parser" where
  "paren_parser opts = pair ''paren'' (lit CHR ''('') (lit CHR '')'') (Parser opts)"

definition nested_parser :: "options \<Rightarrow> parser" where
  "nested_parser opts = pair ''bracket'' (lit CHR ''['') (lit CHR '']'') (paren_parser opts)"


text \<open>
  The number of passes the loop of \<^verbatim>\<open>parse\<close> makes: the loop itself, counting.
\<close>

function passes :: "parser \<Rightarrow> nat" where
  "passes p =
     (if input p = [] then 0
      else
        (case next_pass p of
           Inl e \<Rightarrow> 1
         | Inr p1 \<Rightarrow>
             if input p1 \<noteq> [] \<and> input p = input p1 then 1 else 1 + passes p1))"
  by pat_completeness auto
termination
proof (relation "measure (\<lambda>p. length (input p))")
  show "wf (measure (\<lambda>p. length (input p)))" by simp
next
  fix p :: parser and x2
  assume "input p \<noteq> []" and n: "next_pass p = Inr x2"
    and "\<not> (input x2 \<noteq> [] \<and> input p = input x2)"
  then have "input p \<noteq> input x2" by auto
  with n have "length (input x2) < length (input p)"
    by (rule next_pass_shorter)
  then show "(x2, p) \<in> measure (\<lambda>p. length (input p))" by simp
qed

declare passes.simps [simp del]

text \<open>The expression \<^verbatim>\<open>/^c*/\<close>, which matches the empty string where no \<open>c\<close> stands.\<close>

definition star :: "char \<Rightarrow> regex" where
  "star c s = Some \<lparr>m0 = takeWhile (\<lambda>x. x = c) s, m1 = None\<rparr>"

text \<open>
  The records of the nodes of a tree, in document order, and the positions a parser
  has given so far: each starts no later than it ends, and ends no later than the
  cursor.
\<close>

definition node_records :: "ast \<Rightarrow> node list" where
  "node_records t = map node_of (all_nodes t)"

definition position_ok :: "nat \<Rightarrow> node \<Rightarrow> bool" where
  "position_ok c n =
     (case position n of
        None \<Rightarrow> True
      | Some ps \<Rightarrow> col (pos_start ps) \<le> col (pos_end ps) \<and> col (pos_end ps) \<le> int c)"

definition pos_inv :: "parser \<Rightarrow> bool" where
  "pos_inv p = list_all (position_ok (column p)) (node_records (ast p))"

text \<open>The leaves of a tree in document order: type, start column, end column.\<close>

fun leaf_spans :: "ast \<Rightarrow> (string \<times> int \<times> int) list" where
  "leaf_spans (Leaf n) =
     (case position n of
        None \<Rightarrow> []
      | Some ps \<Rightarrow> [(type n, col (pos_start ps), col (pos_end ps))])"
| "leaf_spans (Branch n ks) = concat (map leaf_spans ks)"

text \<open>A node whose position runs from column \<open>c\<close> to column \<open>d\<close>.\<close>

definition made_at :: "nat \<Rightarrow> nat \<Rightarrow> node \<Rightarrow> bool" where
  "made_at c d n = (position n = Some \<lparr>pos_start = \<lparr>line = None, col = int c\<rparr>,
                                      pos_end = \<lparr>line = None, col = int d\<rparr>\<rparr>)"

text \<open>
  The text of a tree: the values of its leaves in document order, as \<^verbatim>\<open>+\<close> joins
  them.
\<close>

fun flat :: "ast \<Rightarrow> string" where
  "flat (Leaf n) = to_string (val n)"
| "flat (Branch n ks) = concat (map flat ks)"

text \<open>
  A reference on the rightmost spine of a tree: it designates a container, reached
  through last children only.
\<close>

function rspine :: "ast \<Rightarrow> ref \<Rightarrow> bool" where
  "rspine (Leaf n) r = False"
| "rspine (Branch n ks) [] = True"
| "rspine (Branch n ks) (i # r) = (ks \<noteq> [] \<and> i = length ks - 1 \<and> rspine (last ks) r)"
  by pat_completeness auto
termination
  by (relation "measure (\<lambda>(t, r). length r)") auto

text \<open>
  A tree every node of which the renderer maps as the round trip asks: the leaves to
  their value, the containers to their children.
\<close>

fun verbatim :: "(string \<Rightarrow> render_fn option) \<Rightarrow> ast \<Rightarrow> bool" where
  "verbatim f (Leaf n) = (f (type n) = Some EmitVal)"
| "verbatim f (Branch n ks) = (f (type n) = Some MapVisitNodes \<and> list_all (verbatim f) ks)"

fun children :: "ast \<Rightarrow> ast list" where
  "children (Leaf n) = []"
| "children (Branch n ks) = ks"

text \<open>
  What the visit of a node adds to \<^verbatim>\<open>rendered\<close> under such a renderer: every
  \<^verbatim>\<open>mapVisit\<close> appends its buffer, the ones of the containers below first.
\<close>

fun echo :: "ast \<Rightarrow> string" where
  "echo (Leaf n) = []"
| "echo (Branch n ks) = concat (map echo ks) @ concat (map flat ks)"

text \<open>The outcomes of \<^verbatim>\<open>mapVisit\<close> and \<^verbatim>\<open>visit\<close> that return a text and add to \<^verbatim>\<open>rendered\<close>.\<close>

definition rendered_as :: "renderer \<Rightarrow> string \<Rightarrow> string \<Rightarrow> (exn \<times> renderer) + (string \<times> renderer) \<Rightarrow> bool" where
  "rendered_as r txt added x = (\<exists>r1. x = Inr (txt, r1) \<and> renderers r1 = renderers r
     \<and> rendered r1 = rendered r @ added)"

definition visited_as :: "renderer \<Rightarrow> ast \<Rightarrow> (exn \<times> renderer) + (rvalue \<times> renderer) \<Rightarrow> bool" where
  "visited_as r k x = (\<exists>v r1. x = Inr (v, r1) \<and> string_of v = flat k
     \<and> renderers r1 = renderers r \<and> rendered r1 = rendered r @ echo k)"

section \<open>Properly nested inputs\<close>

text \<open>
  The calls that configure a parser, \<^verbatim>\<open>capture(type, regex)\<close> and
  \<^verbatim>\<open>pair(type, openRegex, closeRegex)\<close>, and a new parser after a list of them.
\<close>

datatype registration = Cap string regex | Par string regex regex

fun register :: "registration \<Rightarrow> parser \<Rightarrow> parser" where
  "register (Cap t re) p = capture t re p"
| "register (Par k a b) p = pair k a b p"

definition configured :: "registration list \<Rightarrow> options \<Rightarrow> parser" where
  "configured regs opts = foldl (\<lambda>p r. register r p) (Parser opts) regs"

text \<open>
  The tokens of an input, as the handlers of a table take them one after the other.
  A scan holds the kinds of the containers that are open, the outermost first, the
  input that is left, and the text of the tokens taken so far. A capture and an open
  take what their expression matches, and an open with a non-empty match opens its
  kind; a close whose expression matches is properly nested when its kind is the one
  opened last, and closes it. \<open>None\<close> is a close that is not properly nested, or an
  input no handler takes anything of.
\<close>

type_synonym scan = "string list \<times> string \<times> string"

fun scan_handler :: "handler \<Rightarrow> scan \<Rightarrow> scan option" where
  "scan_handler (Capture t re) (ks, inp, tx) =
     (case re inp of
        None \<Rightarrow> Some (ks, inp, tx)
      | Some m \<Rightarrow> Some (ks, drop (length (m0 m)) inp, tx @ m0 m))"
| "scan_handler (PairOpen k re) (ks, inp, tx) =
     (case re inp of
        None \<Rightarrow> Some (ks, inp, tx)
      | Some m \<Rightarrow>
          Some (if m0 m = [] then ks else ks @ [k], drop (length (m0 m)) inp, tx @ m0 m))"
| "scan_handler (PairClose k re) (ks, inp, tx) =
     (case re inp of
        None \<Rightarrow> Some (ks, inp, tx)
      | Some m \<Rightarrow>
          if ks \<noteq> [] \<and> last ks = k
          then Some (butlast ks, drop (length (m0 m)) inp, tx @ m0 m)
          else None)"

fun scan_from :: "(string \<Rightarrow> handler option) \<Rightarrow> string list \<Rightarrow> scan \<Rightarrow> scan option" where
  "scan_from ps [] s = Some s"
| "scan_from ps (t # ts) s =
     (case ps t of
        None \<Rightarrow> None
      | Some h \<Rightarrow>
          (case scan_handler h s of
             None \<Rightarrow> None
           | Some s1 \<Rightarrow> scan_from ps ts s1))"

lemma scan_handler_input:
  "scan_handler h (ks, inp, tx) = Some (ks1, inp1, tx1) \<Longrightarrow> \<exists>n. inp1 = drop n inp"
  by (cases h) (auto split: option.splits if_splits intro: exI[of _ 0])

lemma scan_from_input:
  "scan_from ps ts (ks, inp, tx) = Some (ks1, inp1, tx1) \<Longrightarrow> \<exists>n. inp1 = drop n inp"
proof (induction ts arbitrary: ks inp tx)
  case Nil
  then show ?case by (auto intro: exI[of _ 0])
next
  case (Cons t ts)
  from Cons.prems obtain h s where h: "ps t = Some h"
    and s: "scan_handler h (ks, inp, tx) = Some s" and r: "scan_from ps ts s = Some (ks1, inp1, tx1)"
    by (auto split: option.splits)
  obtain ks2 inp2 tx2 where s2: "s = (ks2, inp2, tx2)" by (cases s)
  from scan_handler_input[OF s[unfolded s2]] obtain n where "inp2 = drop n inp" ..
  moreover from Cons.IH[OF r[unfolded s2]] obtain m where "inp1 = drop m inp2" ..
  ultimately have "inp1 = drop (m + n) inp" by simp
  then show ?case ..
qed

lemma scan_from_shorter:
  assumes "scan_from ps ts (ks, inp, tx) = Some (ks1, inp1, tx1)" and "inp1 \<noteq> inp"
  shows "length inp1 < length inp"
proof -
  from scan_from_input[OF assms(1)] obtain n where n: "inp1 = drop n inp" ..
  with assms(2) have "n \<noteq> 0" by (cases n) auto
  moreover from n assms(2) have "inp \<noteq> []" by auto
  ultimately show ?thesis using n by simp
qed

function scan_loop :: "(string \<Rightarrow> handler option) \<Rightarrow> string list \<Rightarrow> scan \<Rightarrow> scan option" where
  "scan_loop ps ts (ks, inp, tx) =
     (if inp = [] then Some (ks, inp, tx)
      else
        (case scan_from ps ts (ks, inp, tx) of
           None \<Rightarrow> None
         | Some (ks1, inp1, tx1) \<Rightarrow>
             if inp1 = inp then None else scan_loop ps ts (ks1, inp1, tx1)))"
  by pat_completeness auto
termination
proof (relation "measure (\<lambda>(ps, ts, ks, inp, tx). length inp)")
  show "wf (measure (\<lambda>(ps, ts, ks, inp, tx). length inp))" by simp
next
  fix ps ts ks inp tx x2 ks1 y inp1 tx1
  assume "inp \<noteq> []" and s: "scan_from ps ts (ks, inp, tx) = Some x2"
    and "(ks1, y) = x2" and "(inp1, tx1) = y" and ne: "inp1 \<noteq> inp"
  then have "scan_from ps ts (ks, inp, tx) = Some (ks1, inp1, tx1)" by simp
  from scan_from_shorter[OF this ne]
  show "((ps, ts, ks1, inp1, tx1), ps, ts, ks, inp, tx)
          \<in> measure (\<lambda>(ps, ts, ks, inp, tx). length inp)" by simp
qed

declare scan_loop.simps [simp del]

text \<open>
  An input that a parser's handlers take to its end with every close properly
  nested: what the scan of the whole input leaves. The input is composed only of
  well-balanced registered constructs when nothing is left open and the tokens
  taken make up the input.
\<close>

definition scanned :: "parser \<Rightarrow> string \<Rightarrow> scan option" where
  "scanned p inp = scan_loop (parsers p) (types p) ([], inp, [])"

definition balanced :: "parser \<Rightarrow> string \<Rightarrow> bool" where
  "balanced p inp = (scanned p inp = Some ([], [], inp))"

text \<open>A table whose pairs are all of a kind that \<^verbatim>\<open>sets\<close> has a stack for.\<close>

definition kind_known :: "handler \<Rightarrow> bool" where
  "kind_known h = (case h of PairOpen k re \<Rightarrow> k \<in> set kinds | _ \<Rightarrow> True)"

definition kinds_known :: "parser \<Rightarrow> bool" where
  "kinds_known p =
     list_all (\<lambda>t. case parsers p t of None \<Rightarrow> True | Some h \<Rightarrow> kind_known h) (types p)"

text \<open>
  The render functions the round trip asks for, for the trees of a table: the value
  of every leaf, the children of every container.
\<close>

definition renders_verbatim :: "(string \<Rightarrow> render_fn option) \<Rightarrow> handler \<Rightarrow> bool" where
  "renders_verbatim f h =
     (case h of
        Capture t re \<Rightarrow> f t = Some EmitVal
      | PairOpen k re \<Rightarrow> f k = Some MapVisitNodes \<and> f (k @ ''.open'') = Some EmitVal
      | PairClose k re \<Rightarrow> f (k @ ''.close'') = Some EmitVal)"

definition verbatim_for :: "parser \<Rightarrow> (string \<Rightarrow> render_fn option) \<Rightarrow> bool" where
  "verbatim_for p f = (f ''bos'' = Some EmitVal \<and> f ''eos'' = Some EmitVal
     \<and> list_all (\<lambda>t. case parsers p t of None \<Rightarrow> True | Some h \<Rightarrow> renders_verbatim f h)
         (types p))"

text \<open>
  The parser between two handlers of a properly nested input: \<open>ks\<close> are the kinds of
  the containers on the flattened stack, from the bottom; the stack of each kind
  holds the entries of the flattened stack of that kind, and the counter their
  number; the entries designate containers on the rightmost spine of the tree, each
  deeper than the one before.
\<close>

definition nested :: "parser \<Rightarrow> string list \<Rightarrow> bool" where
  "nested p ks = (map (type_at (ast p)) (stack p) = ks \<and> set ks \<subseteq> set kinds
     \<and> dom (sets p) = set kinds
     \<and> list_all (\<lambda>k. sets p k = Some (map fst (filter (\<lambda>x. snd x = k) (zip (stack p) ks))))
          kinds
     \<and> count p = int (length (stack p))
     \<and> rspine (ast p) [] \<and> list_all (rspine (ast p)) (stack p)
     \<and> sorted_wrt (\<lambda>a b. length a < length b) (stack p))"

definition tracks :: "parser \<Rightarrow> scan \<Rightarrow> bool" where
  "tracks p s = (case s of (ks, inp, tx) \<Rightarrow>
     input p = inp \<and> parsed_text p = tx \<and> nested p ks)"

text \<open>
  What a handler, or \<^verbatim>\<open>eos\<close>, does to the tree and the flattened stack: nothing; one
  leaf under \<^verbatim>\<open>prev()\<close>; a container with its open token under \<^verbatim>\<open>prev()\<close>, and on
  the stack; or a close token under the container on top of the stack, which it
  leaves, being of the kind that closes. The nodes are made at the columns the cursor
  moves between, and their values are the text taken.
\<close>

datatype effect = Skip | Token node | Opened node node | Closed node

fun effected :: "parser \<Rightarrow> parser \<Rightarrow> effect \<Rightarrow> bool" where
  "effected p q Skip = (ast q = ast p \<and> stack q = stack p \<and> parsed_text q = parsed_text p)"
| "effected p q (Token n) =
     (nodes_push (ast p) (prev p) (Leaf n) = Some (ast q) \<and> stack q = stack p
      \<and> (parsed n \<noteq> None \<or> type n = ''eos'')
      \<and> parsed_text q = parsed_text p @ to_string (val n)
      \<and> made_at (column p) (column q) n)"
| "effected p q (Opened n opn) =
     (nodes_push (ast p) (prev p) (Branch n [Leaf opn]) = Some (ast q)
      \<and> stack q = stack p @ [child_ref (ast p) (prev p)]
      \<and> type n \<in> set kinds \<and> type opn = type n @ ''.open''
      \<and> parsed_text q = parsed_text p @ to_string (val opn)
      \<and> made_at (column p) (column q) n \<and> made_at (column p) (column q) opn)"
| "effected p q (Closed n) =
     (stack p \<noteq> [] \<and> nodes_push (ast p) (last (stack p)) (Leaf n) = Some (ast q)
      \<and> stack q = butlast (stack p)
      \<and> type n = type_at (ast p) (last (stack p)) @ ''.close'' \<and> parsed n = None
      \<and> parsed_text q = parsed_text p @ to_string (val n)
      \<and> made_at (column p) (column q) n)"

text \<open>The types of the nodes a handler makes.\<close>

fun makes :: "handler \<Rightarrow> effect \<Rightarrow> bool" where
  "makes h Skip = True"
| "makes (Capture t re) (Token n) = (type n = t)"
| "makes (PairOpen k re) (Opened n opn) = (type n = k)"
| "makes (PairClose k re) (Closed n) = (type n = k @ ''.close'')"
| "makes h e = False"







text \<open>
  Leaves that follow one another: each ends no later than the next starts. A tree
  is well placed when every leaf has a position and every container the position of
  its first child, which is its open token.
\<close>

definition consecutive :: "(string \<times> int \<times> int) list \<Rightarrow> bool" where
  "consecutive xs = sorted_wrt (\<lambda>a b. snd (snd a) \<le> fst (snd b)) xs"

fun well_placed :: "ast \<Rightarrow> bool" where
  "well_placed (Leaf n) = (position n \<noteq> None)"
| "well_placed (Branch n ks) =
     (ks \<noteq> [] \<and> position n = position (node_of (hd ks)) \<and> list_all well_placed ks)"

definition spans_inv :: "parser \<Rightarrow> bool" where
  "spans_inv p = (consecutive (leaf_spans (ast p))
     \<and> list_all (\<lambda>x. fst (snd x) \<le> snd (snd x) \<and> snd (snd x) \<le> int (column p))
         (leaf_spans (ast p))
     \<and> list_all well_placed (children (ast p)))"

text \<open>A new parser's tree and stacks, whatever has been registered.\<close>

definition fresh :: "parser \<Rightarrow> bool" where
  "fresh p = (ast p = Branch (new_node ''root'') [Leaf bos] \<and> stack p = [] \<and> count p = 0
     \<and> sets p = sets (Parser (options p)) \<and> parsed_text p = [] \<and> column p = 1
     \<and> append_text p = None)"

text \<open>The expression \<^verbatim>\<open>/^[^cs]+/\<close>: one or more characters other than those of \<open>cs\<close>.\<close>

definition none_of :: "string \<Rightarrow> regex" where
  "none_of cs s =
     (if takeWhile (\<lambda>x. x \<notin> set cs) s = [] then None
      else Some \<lparr>m0 = takeWhile (\<lambda>x. x \<notin> set cs) s, m1 = None\<rparr>)"



text \<open>
  Positions of the snapdragon parser, as pairs of a line and a column in their order;
  the span of a node; and a list \<^verbatim>\<open>nodes\<close> in which every node starts no later than
  it ends, no earlier than the node before it ends, and ends no later than the
  cursor.
\<close>

definition cursor_sd :: "snapdragon \<Rightarrow> int \<times> int" where
  "cursor_sd p = (lineno p, column_sd p)"

definition before :: "int \<times> int \<Rightarrow> int \<times> int \<Rightarrow> bool" where
  "before a b = (fst a < fst b \<or> (fst a = fst b \<and> snd a \<le> snd b))"

definition place :: "point \<Rightarrow> int \<times> int" where
  "place pt = (case line pt of None \<Rightarrow> 0 | Some l \<Rightarrow> l, col pt)"

definition span_start :: "ast \<Rightarrow> int \<times> int" where
  "span_start k = (case position (node_of k) of None \<Rightarrow> (0, 0) | Some ps \<Rightarrow> place (pos_start ps))"

definition span_end :: "ast \<Rightarrow> int \<times> int" where
  "span_end k = (case position (node_of k) of None \<Rightarrow> (0, 0) | Some ps \<Rightarrow> place (pos_end ps))"

definition ordered_sd :: "snapdragon \<Rightarrow> bool" where
  "ordered_sd p = (sorted_wrt (\<lambda>a b. before (span_end a) (span_start b)) (nodes p)
     \<and> list_all (\<lambda>k. before (span_start k) (span_end k) \<and> before (span_end k) (cursor_sd p))
         (nodes p))"

text \<open>Middleware of the documented form, one for each type and expression of a list.\<close>

definition rules_mw :: "(string \<times> regex) list \<Rightarrow> middleware list" where
  "rules_mw rules = map (\<lambda>(t, re). rule_mw t re) rules"

text \<open>The type and the columns of every node of a tree, in document order.\<close>

definition node_spans :: "ast \<Rightarrow> (string \<times> (int \<times> int) option) list" where
  "node_spans t =
     map (\<lambda>n. (type n, case position n of
                          None \<Rightarrow> None
                        | Some ps \<Rightarrow> Some (col (pos_start ps), col (pos_end ps))))
       (node_records t)"

text \<open>
  A table of pairs, each a kind with its open and its close character, registered
  one after the other on a new parser, with a capture for the text between them:
  \<^verbatim>\<open>pair(kind, /^o/, /^c/)\<close> for each, then \<^verbatim>\<open>capture('text', /^[^...]+/)\<close> for the
  characters that none of the pairs uses. The kinds are among the five, each
  registered once, and the characters are all different.
\<close>

type_synonym table = "(string \<times> char \<times> char) list"

definition specials :: "table \<Rightarrow> string" where
  "specials tbl = map (\<lambda>(k, a, b). a) tbl @ map (\<lambda>(k, a, b). b) tbl"

definition pair_calls :: "table \<Rightarrow> registration list" where
  "pair_calls tbl = map (\<lambda>(k, a, b). Par k (lit a) (lit b)) tbl"

definition table_parser :: "table \<Rightarrow> options \<Rightarrow> parser" where
  "table_parser tbl opts =
     configured (pair_calls tbl @ [Cap ''text'' (none_of (specials tbl))]) opts"

definition table_wf :: "table \<Rightarrow> bool" where
  "table_wf tbl = (set (map fst tbl) \<subseteq> set kinds \<and> distinct (map fst tbl)
     \<and> distinct (specials tbl))"

text \<open>
  The inputs of well-balanced pairs of such a table, by their grammar: nothing; a
  character of text before a balanced input; a balanced input between the open and
  the close character of a pair, before a balanced input.
\<close>

inductive well_balanced :: "table \<Rightarrow> string \<Rightarrow> bool" for tbl :: table where
  wb_empty: "well_balanced tbl []"
| wb_text: "c \<notin> set (specials tbl) \<Longrightarrow> well_balanced tbl w \<Longrightarrow> well_balanced tbl (c # w)"
| wb_wrap: "(k, a, b) \<in> set tbl \<Longrightarrow> well_balanced tbl u \<Longrightarrow> well_balanced tbl v
           \<Longrightarrow> well_balanced tbl (a # u @ b # v)"

text \<open>
  The same inputs read from the left, with the kinds that are open, the innermost
  first.
\<close>

fun closes :: "table \<Rightarrow> string list \<Rightarrow> string \<Rightarrow> bool" where
  "closes tbl st [] = (st = [])"
| "closes tbl st (x # w) =
     (case find (\<lambda>(k, a, b). a = x) tbl of
        Some (k, a, b) \<Rightarrow> closes tbl (k # st) w
      | None \<Rightarrow>
          (case find (\<lambda>(k, a, b). b = x) tbl of
             Some (k, a, b) \<Rightarrow>
               (case st of
                  [] \<Rightarrow> False
                | k1 # st1 \<Rightarrow> k1 = k \<and> closes tbl st1 w)
           | None \<Rightarrow> closes tbl st w))"

text \<open>The handlers of such a table, and the character at which each takes a token.\<close>

definition table_handler :: "table \<Rightarrow> handler \<Rightarrow> bool" where
  "table_handler tbl h =
     (list_ex (\<lambda>(k, a, b). h = PairOpen k (lit a) \<or> h = PairClose k (lit b)) tbl
      \<or> h = Capture ''text'' (none_of (specials tbl)))"

fun takes :: "table \<Rightarrow> handler \<Rightarrow> char \<Rightarrow> bool" where
  "takes tbl (Capture t re) x = (x \<notin> set (specials tbl))"
| "takes tbl (PairOpen k re) x = (re = lit x)"
| "takes tbl (PairClose k re) x = (re = lit x)"

section \<open>The extglob parser: what the handlers keep\<close>

lemma same_config_refl: "same_config p p"
  by (simp add: same_config_def)

lemma same_config_trans: "same_config p q \<Longrightarrow> same_config q r \<Longrightarrow> same_config p r"
  by (simp add: same_config_def)

lemma match_config: "match regex p = (r, p1) \<Longrightarrow> same_config p p1"
  by (auto simp: match_def updatePosition_def consume_def same_config_def split: option.splits)

lemma push_child_config: "push_child r c p = Inr p1 \<Longrightarrow> same_config p p1"
  by (auto simp: push_child_def same_config_def split: option.splits)

lemma push_config: "push t r p = Inr p1 \<Longrightarrow> same_config p p1"
  by (auto simp: push_def Let_def same_config_def split: option.splits)

lemma pop_config: "pop t p = Inr (r, p1) \<Longrightarrow> same_config p p1"
  by (auto simp: pop_def Let_def same_config_def split: option.splits)

lemma capture_fn_config:
  assumes "capture_fn t regex p = Inr p1"
  shows "same_config p p1"
proof (cases "match regex p")
  case (Pair r q)
  from assms Pair have "p1 = q \<or> (\<exists>pr c. push_child pr c q = Inr p1)"
    by (auto simp: capture_fn_def Let_def split: option.splits if_splits)
  with match_config[OF Pair] show ?thesis
    by (auto dest: push_child_config intro: same_config_trans)
qed

lemma open_fn_config:
  assumes "open_fn t regex p = Inr p1"
  shows "same_config p p1"
proof (cases "match regex p")
  case (Pair r q)
  from assms Pair have
    "p1 = q \<or> (\<exists>pr c s p3. push t s (q\<lparr>specialChars := True\<rparr>) = Inr p3
        \<and> push_child pr c p3 = Inr p1)"
    by (auto simp: open_fn_def Let_def split: option.splits if_splits sum.splits)
  moreover have "same_config q (q\<lparr>specialChars := True\<rparr>)"
    by (simp add: same_config_def)
  ultimately show ?thesis using match_config[OF Pair]
    by (auto dest!: push_child_config push_config intro: same_config_trans)
qed

lemma close_fn_config:
  assumes "close_fn t regex p = Inr p1"
  shows "same_config p p1"
proof (cases "match regex p")
  case (Pair r q)
  from assms Pair have
    "p1 = q \<or> (\<exists>pr c o2 p2. pop t q = Inr (o2, p2) \<and> push_child pr c p2 = Inr p1)"
    by (auto simp: close_fn_def Let_def split: option.splits if_splits sum.splits prod.splits)
  with match_config[OF Pair] show ?thesis
    by (auto dest!: push_child_config pop_config intro: same_config_trans)
qed

lemma run_handler_config: "run_handler h p = Inr p1 \<Longrightarrow> same_config p p1"
  by (cases h) (auto dest: capture_fn_config open_fn_config close_fn_config)

lemma next_from_config: "next_from ts p = Inr p1 \<Longrightarrow> same_config p p1"
proof (induction ts arbitrary: p)
  case Nil
  then show ?case by (simp add: same_config_refl)
next
  case (Cons t ts)
  from Cons.prems obtain h q where "run_handler h p = Inr q" and "next_from ts q = Inr p1"
    by (auto split: option.splits sum.splits)
  then show ?case
    using Cons.IH run_handler_config same_config_trans by blast
qed

lemma parse_loop_end:
  "parse_loop p = Inr p1 \<Longrightarrow> input p1 = [] \<and> same_config p p1"
proof (induction p rule: parse_loop.induct)
  case (1 p)
  show ?case
  proof (cases "input p = []")
    case True
    with "1.prems" show ?thesis
      by (simp add: parse_loop.simps same_config_refl)
  next
    case False
    with "1.prems" obtain q where q: "next_pass p = Inr q"
      and c: "\<not> (input q \<noteq> [] \<and> input p = input q)" and l: "parse_loop q = Inr p1"
      by (subst (asm) parse_loop.simps) (auto split: sum.splits if_splits)
    from "1.IH"[OF False q c l] have "input p1 = []" and "same_config q p1" by auto
    moreover from q have "same_config p q"
      unfolding next_pass_def by (rule next_from_config)
    ultimately show ?thesis by (blast intro: same_config_trans)
  qed
qed

lemma nodes_push_get:
  "nodes_push t r c = Some t1 \<Longrightarrow>
     \<exists>m ks. get_node t r = Some (Branch m ks) \<and> get_node t1 r = Some (Branch m (ks @ [c]))"
proof (induction t r c arbitrary: t1 rule: nodes_push.induct)
  case (4 n ks i r c)
  from "4.prems" obtain k where i: "i < length ks" and k: "nodes_push (ks ! i) r c = Some k"
    and t1: "t1 = Branch n (ks[i := k])"
    by (auto split: if_splits option.splits)
  from "4.IH"[OF i k] obtain m js where "get_node (ks ! i) r = Some (Branch m js)"
    and "get_node k r = Some (Branch m (js @ [c]))" by blast
  with i t1 show ?case by simp
qed auto

lemma nodes_push_branch:
  "is_branch t r \<Longrightarrow> \<exists>t1. nodes_push t r c = Some t1"
proof (induction t r c rule: nodes_push.induct)
  case (4 n ks i r c)
  then show ?case by (auto simp: is_branch_def split: if_splits)
qed (auto simp: is_branch_def)

lemma nodes_push_keeps_branch:
  "nodes_push t r c = Some t1 \<Longrightarrow> is_branch t r1 \<Longrightarrow> is_branch t1 r1"
proof (induction t r c arbitrary: t1 r1 rule: nodes_push.induct)
  case (1 n ks c)
  then show ?case
    by (cases r1) (auto simp: is_branch_def nth_append split: if_splits)
next
  case (4 n ks i r c)
  from "4.prems"(1) obtain k where i: "i < length ks" and k: "nodes_push (ks ! i) r c = Some k"
    and t1: "t1 = Branch n (ks[i := k])"
    by (auto split: if_splits option.splits)
  show ?case
  proof (cases r1)
    case Nil
    with t1 show ?thesis by (simp add: is_branch_def)
  next
    case (Cons j r2)
    show ?thesis
    proof (cases "j = i")
      case True
      with Cons "4.prems"(2) i have "is_branch (ks ! i) r2" by (simp add: is_branch_def)
      from "4.IH"[OF i k this] True Cons t1 i show ?thesis by (simp add: is_branch_def)
    next
      case False
      with Cons "4.prems"(2) t1 show ?thesis
        by (auto simp: is_branch_def split: if_splits)
    qed
  qed
qed auto

lemma nodes_push_get_child:
  "nodes_push t r c = Some t1 \<Longrightarrow> get_node t1 (child_ref t r) = Some c"
proof (induction t r c arbitrary: t1 rule: nodes_push.induct)
  case (1 n ks c)
  then show ?case by (auto simp: child_ref_def)
next
  case (4 n ks i r c)
  from "4.prems" obtain k where i: "i < length ks" and k: "nodes_push (ks ! i) r c = Some k"
    and t1: "t1 = Branch n (ks[i := k])"
    by (auto split: if_splits option.splits)
  from nodes_push_get[OF k] obtain a as where g: "get_node (ks ! i) r = Some (Branch a as)"
    by blast
  from "4.IH"[OF i k] g i t1 show ?case by (simp add: child_ref_def)
qed auto

lemma nodes_push_new_branch:
  "nodes_push t r (Branch m js) = Some t1 \<Longrightarrow> is_branch t1 (child_ref t r)"
  by (simp add: is_branch_def nodes_push_get_child)

lemma wf_refs_prev: "wf_refs p \<Longrightarrow> is_branch (ast p) (prev p)"
  by (auto simp: wf_refs_def prev_def list_all_iff)

lemma push_child_wf:
  assumes "wf_refs p" and "push_child r c p = Inr p1"
  shows "wf_refs p1"
proof -
  from assms(2) have a: "nodes_push (ast p) r c = Some (ast p1)"
    and s: "stack p1 = stack p" "sets p1 = sets p"
    by (auto simp: push_child_def split: option.splits)
  have "is_branch (ast p) x \<Longrightarrow> is_branch (ast p1) x" for x
    using a by (rule nodes_push_keeps_branch)
  with assms(1) s show ?thesis
    by (auto simp: wf_refs_def list_all_iff)
qed

lemma match_wf: "match regex p = (r, p1) \<Longrightarrow> wf_refs p \<Longrightarrow> wf_refs p1"
  by (auto simp: match_def updatePosition_def consume_def wf_refs_def split: option.splits)


lemma capture_fn_wf:
  assumes "capture_fn t regex p = Inr p1" and "wf_refs p"
  shows "wf_refs p1"
proof (cases "match regex p")
  case (Pair r q)
  from assms Pair have "p1 = q \<or> (\<exists>pr c. push_child pr c q = Inr p1)"
    by (auto simp: capture_fn_def Let_def split: option.splits if_splits)
  with match_wf[OF Pair assms(2)] show ?thesis
    by (auto dest: push_child_wf)
qed

lemma open_fn_wf:
  assumes "open_fn t regex p = Inr p1" and "wf_refs p"
  shows "wf_refs p1"
proof (cases "match regex p")
  case (Pair r q)
  let ?q = "q\<lparr>specialChars := True\<rparr>"
  from match_wf[OF Pair assms(2)] have wq: "wf_refs ?q" by (simp add: wf_refs_def)
  from assms Pair have
    "p1 = q \<or> (\<exists>n ks p3. push t (child_ref (ast ?q) (prev q)) ?q = Inr p3
        \<and> push_child (prev q) (Branch n ks) p3 = Inr p1)"
    by (auto simp: open_fn_def Let_def prev_def split: option.splits if_splits sum.splits)
  then show ?thesis
  proof
    assume "p1 = q"
    with match_wf[OF Pair assms(2)] show ?thesis by simp
  next
    assume "\<exists>n ks p3. push t (child_ref (ast ?q) (prev q)) ?q = Inr p3
        \<and> push_child (prev q) (Branch n ks) p3 = Inr p1"
    then obtain n ks p3 where p3: "push t (child_ref (ast ?q) (prev q)) ?q = Inr p3"
      and c: "push_child (prev q) (Branch n ks) p3 = Inr p1" by blast
    let ?s = "child_ref (ast q) (prev q)"
    from p3 obtain s where s: "sets q t = Some s"
      and p3': "ast p3 = ast q" "stack p3 = stack q @ [?s]" "sets p3 = (sets q)(t \<mapsto> s @ [?s])"
      by (auto simp: push_def Let_def split: option.splits)
    from c p3' have a: "nodes_push (ast q) (prev q) (Branch n ks) = Some (ast p1)"
      and e: "stack p1 = stack q @ [?s]" "sets p1 = (sets q)(t \<mapsto> s @ [?s])"
      by (auto simp: push_child_def split: option.splits)
    have keep: "is_branch (ast q) x \<Longrightarrow> is_branch (ast p1) x" for x
      using a by (rule nodes_push_keeps_branch)
    have new: "is_branch (ast p1) ?s"
      using a by (rule nodes_push_new_branch)
    from wq have w: "is_branch (ast q) []" "list_all (is_branch (ast q)) (stack q)"
      "\<And>t s. sets q t = Some s \<Longrightarrow> list_all (is_branch (ast q)) s"
      by (auto simp: wf_refs_def)
    show ?thesis
      unfolding wf_refs_def e
      using keep new w s by (auto simp: list_all_iff split: if_splits)
  qed
qed

lemma pop_wf:
  assumes "pop t p = Inr (r, p1)" and "wf_refs p"
  shows "wf_refs p1"
proof -
  from assms(1) obtain s where s: "sets p t = Some s"
    and e: "ast p1 = ast p" "stack p1 = butlast (stack p)" "sets p1 = (sets p)(t \<mapsto> butlast s)"
    by (auto simp: pop_def Let_def split: option.splits)
  from assms(2) have w: "is_branch (ast p) []" "\<And>x. x \<in> set (stack p) \<Longrightarrow> is_branch (ast p) x"
    "\<And>t s x. sets p t = Some s \<Longrightarrow> x \<in> set s \<Longrightarrow> is_branch (ast p) x"
    by (auto simp: wf_refs_def list_all_iff)
  have "x \<in> set (butlast (stack p)) \<Longrightarrow> is_branch (ast p) x" for x
    using w(2) in_set_butlastD by fastforce
  moreover have "x \<in> set (butlast s) \<Longrightarrow> is_branch (ast p) x" for x
    using w(3)[OF s] in_set_butlastD by fastforce
  ultimately show ?thesis
    unfolding wf_refs_def e using w by (auto simp: list_all_iff split: if_splits)
qed

lemma close_fn_wf:
  assumes "close_fn t regex p = Inr p1" and "wf_refs p"
  shows "wf_refs p1"
proof (cases "match regex p")
  case (Pair r q)
  from assms Pair have
    "p1 = q \<or> (\<exists>pr c o2 p2. pop t q = Inr (o2, p2) \<and> push_child pr c p2 = Inr p1)"
    by (auto simp: close_fn_def Let_def split: option.splits if_splits sum.splits prod.splits)
  with match_wf[OF Pair assms(2)] show ?thesis
    by (auto dest: push_child_wf pop_wf)
qed

lemma run_handler_wf: "run_handler h p = Inr p1 \<Longrightarrow> wf_refs p \<Longrightarrow> wf_refs p1"
  by (cases h) (auto dest: capture_fn_wf open_fn_wf close_fn_wf)

lemma next_from_wf: "next_from ts p = Inr p1 \<Longrightarrow> wf_refs p \<Longrightarrow> wf_refs p1"
proof (induction ts arbitrary: p)
  case Nil
  then show ?case by simp
next
  case (Cons t ts)
  from Cons.prems obtain h q where "run_handler h p = Inr q" and "next_from ts q = Inr p1"
    by (auto split: option.splits sum.splits)
  with Cons.IH Cons.prems(2) show ?case
    using run_handler_wf by blast
qed

lemma parse_loop_wf:
  "parse_loop p = Inr p1 \<Longrightarrow> wf_refs p \<Longrightarrow> wf_refs p1"
proof (induction p rule: parse_loop.induct)
  case (1 p)
  show ?case
  proof (cases "input p = []")
    case True
    with "1.prems" show ?thesis
      by (simp add: parse_loop.simps)
  next
    case False
    with "1.prems" obtain q where q: "next_pass p = Inr q"
      and c: "\<not> (input q \<noteq> [] \<and> input p = input q)" and l: "parse_loop q = Inr p1"
      by (subst (asm) parse_loop.simps) (auto split: sum.splits if_splits)
    from q "1.prems"(2) have "wf_refs q"
      unfolding next_pass_def by (rule next_from_wf)
    with "1.IH"[OF False q c l] show ?thesis by simp
  qed
qed

lemma wf_refs_Parser: "wf_refs (Parser opts)"
  by (simp add: wf_refs_def Parser_def is_branch_def)

lemma wf_refs_set_parser: "wf_refs (set_parser t h p) = wf_refs p"
  by (simp add: wf_refs_def set_parser_def)

section \<open>The extglob parser: the end of the input and unbalanced closes\<close>

lemma eos_at_end:
  assumes "input p = []" and "eos p = Inr p1"
  shows "nodes_push (ast p) (prev p) (Leaf (eos_node p)) = Some (ast p1) \<and> p1 = p\<lparr>ast := ast p1\<rparr>"
  using assms by (auto simp: eos_def eos_node_def Let_def push_child_def split: option.splits)

text \<open>
  C5, as amended. A call of \<^verbatim>\<open>parse\<close> that returns has pushed one node of type
  \<^verbatim>\<open>eos\<close> onto the node \<^verbatim>\<open>prev()\<close> designates when the loop is over, as its last
  child: onto the root when the flattened stack is empty, onto the container on top
  of the flattened stack otherwise. The value of the node is \<^verbatim>\<open>this.append\<close>, or the
  empty string; it is no text of the input. Nothing else of the parser changes.
\<close>

theorem eos_pushed_on_prev:
  assumes "parse inp p0 = Inr p1"
  shows "\<exists>p n m ks. parse_loop (p0\<lparr>orig := Some inp, input := inp\<rparr>) = Inr p
      \<and> p1 = p\<lparr>ast := ast p1\<rparr>
      \<and> type n = ''eos'' \<and> val n = Some (case append_text p0 of None \<Rightarrow> [] | Some a \<Rightarrow> a)
      \<and> prev p = (if stack p \<noteq> [] then last (stack p) else [])
      \<and> nodes_push (ast p) (prev p) (Leaf n) = Some (ast p1)
      \<and> get_node (ast p) (prev p) = Some (Branch m ks)
      \<and> get_node (ast p1) (prev p) = Some (Branch m (ks @ [Leaf n]))"
proof -
  let ?q = "p0\<lparr>orig := Some inp, input := inp\<rparr>"
  from assms obtain p where p: "parse_loop ?q = Inr p" and e: "eos p = Inr p1"
    by (auto simp: parse_def Let_def error_def split: sum.splits if_splits)
  from parse_loop_end[OF p] have i: "input p = []" and c: "same_config ?q p" by auto
  from eos_at_end[OF i e] have
    n: "nodes_push (ast p) (prev p) (Leaf (eos_node p)) = Some (ast p1)"
    and p1: "p1 = p\<lparr>ast := ast p1\<rparr>" by auto
  from nodes_push_get[OF n] obtain m ks where
    "get_node (ast p) (prev p) = Some (Branch m ks)"
    "get_node (ast p1) (prev p) = Some (Branch m (ks @ [Leaf (eos_node p)]))" by blast
  moreover from c have "type (eos_node p) = ''eos''"
    and "val (eos_node p) = Some (case append_text p0 of None \<Rightarrow> [] | Some a \<Rightarrow> a)"
    by (simp_all add: eos_node_def pos_def new_node_def same_config_def)
  moreover have "prev p = (if stack p \<noteq> [] then last (stack p) else [])"
    by (simp add: prev_def)
  ultimately show ?thesis using p p1 n by blast
qed

lemma wf_refs_start: "wf_refs p0 \<Longrightarrow> wf_refs (p0\<lparr>orig := Some inp, input := inp\<rparr>)"
  by (simp add: wf_refs_def)

lemma eos_succeeds:
  assumes "wf_refs p"
  shows "\<exists>p1. eos p = Inr p1"
proof -
  from assms have "is_branch (ast p) (prev p)" by (rule wf_refs_prev)
  then obtain t where "nodes_push (ast p) (prev p) (Leaf (eos_node p)) = Some t"
    using nodes_push_branch by blast
  then show ?thesis
    by (auto simp: eos_def eos_node_def Let_def push_child_def)
qed

lemma wf_refs_paren_parser: "wf_refs (paren_parser opts)"
  by (simp add: paren_parser_def pair_def wf_refs_set_parser wf_refs_Parser)

text \<open>An unclosed parenthesis: the node goes under the parenthesis, at \<open>[1]\<close>.\<close>

theorem eos_pushed_on_prev_witness:
  "\<exists>p1 p n m ks. parse ''('' (paren_parser extglob_opts) = Inr p1
     \<and> parse_loop ((paren_parser extglob_opts)\<lparr>orig := Some ''('', input := ''(''\<rparr>) = Inr p
     \<and> type n = ''eos'' \<and> val n = Some [] \<and> stack p = [[1]] \<and> prev p = [1]
     \<and> get_node (ast p1) [1] = Some (Branch m (ks @ [Leaf n]))"
proof -
  let ?P = "paren_parser extglob_opts"
  have "\<not> isl (parse ''('' ?P)" by code_simp
  then obtain p1 where p1: "parse ''('' ?P = Inr p1" by (cases "parse ''('' ?P") auto
  from eos_pushed_on_prev[OF p1] obtain p n m ks where
    p: "parse_loop (?P\<lparr>orig := Some ''('', input := ''(''\<rparr>) = Inr p"
    and n: "type n = ''eos''" "val n = Some (case append_text ?P of None \<Rightarrow> [] | Some a \<Rightarrow> a)"
    and pr: "prev p = (if stack p \<noteq> [] then last (stack p) else [])"
    and g: "get_node (ast p1) (prev p) = Some (Branch m (ks @ [Leaf n]))"
    by blast
  have "case parse_loop (?P\<lparr>orig := Some ''('', input := ''(''\<rparr>) of
          Inr p \<Rightarrow> stack p = [[1]] | Inl e \<Rightarrow> False" by code_simp
  with p have s: "stack p = [[1]]" by simp
  have a: "append_text ?P = None" by (simp add: paren_parser_def pair_def set_parser_def Parser_def)
  from p1 p n g s pr a show ?thesis by auto
qed

text \<open>
  C5 as stated fails there: the children of the root are \<^verbatim>\<open>bos\<close> and the
  parenthesis, and the \<^verbatim>\<open>eos\<close> node is the last child of the parenthesis.
\<close>

theorem eos_not_under_root_counterexample:
  "case parse ''('' (paren_parser extglob_opts) of
     Inl e \<Rightarrow> False
   | Inr p \<Rightarrow>
       (case ast p of
          Leaf n \<Rightarrow> False
        | Branch n ks \<Rightarrow>
            type (node_of (last ks)) = ''paren'' \<and> type (node_of (last ks)) \<noteq> ''eos''
            \<and> map (\<lambda>k. type (node_of k)) ks = [''bos'', ''paren'']
            \<and> (case last ks of
                  Leaf m \<Rightarrow> False
                | Branch m js \<Rightarrow> map (\<lambda>k. type (node_of k)) js = [''paren.open'', ''eos'']))"
  by code_simp

text \<open>
  What \<^verbatim>\<open>parse\<close> does when the loop is over and the flattened stack is not empty.
  With \<^verbatim>\<open>strict\<close> it ends by throwing; what it throws when errors are not collected
  is the error whose reason names the type of the node on top of the flattened stack
  and the input. Without \<^verbatim>\<open>strict\<close> it returns, and all it adds to the tree of the
  loop is the \<^verbatim>\<open>eos\<close> node under the node on top of the flattened stack.
\<close>

lemma unterminated_at_end:
  assumes "parse_loop (p0\<lparr>orig := Some inp, input := inp\<rparr>) = Inr p" and "stack p \<noteq> []"
    and "wf_refs p0"
  shows "(strict (options p0) \<longrightarrow>
            (\<exists>e q. parse inp p0 = Inl (e, q)) \<and>
            (\<not> silent (options p0) \<longrightarrow>
               (\<exists>e q. parse inp p0 = Inl (FormattedError e, q) \<and>
                  reason e = ''missing opening '' @ type_at (ast p) (last (stack p)) @ '': ''
                    @ dq @ inp @ dq)))
       \<and> (\<not> strict (options p0) \<longrightarrow>
            (\<exists>p1 n. parse inp p0 = Inr p1 \<and> p1 = p\<lparr>ast := ast p1\<rparr> \<and> type n = ''eos''
               \<and> nodes_push (ast p) (last (stack p)) (Leaf n) = Some (ast p1)))"
proof -
  let ?q = "p0\<lparr>orig := Some inp, input := inp\<rparr>"
  from parse_loop_end[OF assms(1)] have i: "input p = []" and c: "same_config ?q p" by auto
  from c have o: "options p = options p0" and g: "orig p = Some inp"
    by (simp_all add: same_config_def)
  from assms(3) have "wf_refs ?q" by (rule wf_refs_start)
  with assms(1) have w: "wf_refs p" by (rule parse_loop_wf)
  show ?thesis
  proof (intro conjI impI)
    assume "strict (options p0)"
    with assms o show "\<exists>e q. parse inp p0 = Inl (e, q)"
      by (auto simp: parse_def Let_def error_def)
  next
    assume "strict (options p0)" and "\<not> silent (options p0)"
    with assms o g show "\<exists>e q. parse inp p0 = Inl (FormattedError e, q) \<and>
        reason e = ''missing opening '' @ type_at (ast p) (last (stack p)) @ '': ''
                    @ dq @ inp @ dq"
      by (auto simp: parse_def Let_def error_def make_err_def)
  next
    assume ns: "\<not> strict (options p0)"
    with assms o have e: "parse inp p0 = eos p" by (simp add: parse_def)
    from eos_succeeds[OF w] obtain p1 where p1: "eos p = Inr p1" ..
    from eos_at_end[OF i p1] assms(2) have "p1 = p\<lparr>ast := ast p1\<rparr>"
      and "nodes_push (ast p) (last (stack p)) (Leaf (eos_node p)) = Some (ast p1)"
      by (auto simp: prev_def)
    moreover have "type (eos_node p) = ''eos''"
      by (simp add: eos_node_def pos_def new_node_def)
    ultimately show "\<exists>p1 n. parse inp p0 = Inr p1 \<and> p1 = p\<lparr>ast := ast p1\<rparr> \<and> type n = ''eos''
               \<and> nodes_push (ast p) (last (stack p)) (Leaf n) = Some (ast p1)"
      using e p1 by auto
  qed
qed

text \<open>
  C4. With \<^verbatim>\<open>strict\<close> set, an input that leaves the flattened stack non-empty is to
  make \<^verbatim>\<open>parse\<close> raise the error of the unterminated construct, which reports the
  kind of the open node. \<^verbatim>\<open>parse\<close> has \<^verbatim>\<open>throw this.error(...)\<close>, and \<^verbatim>\<open>error\<close>
  returns nothing when \<^verbatim>\<open>silent\<close> is set: on the input \<^verbatim>\<open>(\<close>, with parentheses
  registered and the options \<^verbatim>\<open>{strict: true, silent: true}\<close>, the error that names
  \<^verbatim>\<open>paren\<close> joins the error list and \<^verbatim>\<open>parse\<close> throws undefined. With
  \<^verbatim>\<open>{strict: true}\<close> alone the same call throws that error.
\<close>

theorem unterminated_silent_undefined:
  "(case parse ''('' (paren_parser (extglob_opts\<lparr>strict := True, silent := True\<rparr>)) of
      Inl (e, q) \<Rightarrow>
        e = Undefined
        \<and> map reason (errors q) = [''missing opening paren: '' @ dq @ ''('' @ dq]
    | Inr p \<Rightarrow> False)
   \<and> (case parse ''('' (paren_parser (extglob_opts\<lparr>strict := True\<rparr>)) of
        Inl (FormattedError e, q) \<Rightarrow>
          reason e = ''missing opening paren: '' @ dq @ ''('' @ dq \<and> errors q = []
      | _ \<Rightarrow> False)"
  by code_simp

text \<open>
  A close on an empty stack. When the close expression of a kind matches and the
  stack of that kind is empty, the handler throws the error
  \<^verbatim>\<open>missing opening "kind"\<close> at once, whatever the options; so does \<^verbatim>\<open>parse\<close> on an
  input that the close expression of the only registered pair matches and its open
  expression does not.
\<close>

lemma close_without_open:
  "(closeRegex (input p) = Some m \<and> sets p t = Some [] \<and> t \<noteq> [] \<longrightarrow>
      (\<exists>q. close_fn t closeRegex (p\<lparr>options := opts\<rparr>)
             = Inl (Error (''missing opening '' @ dq @ t @ dq), q)))
   \<and> (t \<in> {''single'', ''double'', ''bracket'', ''brace'', ''paren''} \<and> inp \<noteq> []
        \<and> openRegex inp = None \<and> closeRegex inp = Some m \<longrightarrow>
      (\<exists>q. parse inp (pair t openRegex closeRegex (Parser opts))
             = Inl (Error (''missing opening '' @ dq @ t @ dq), q)))"
proof (intro conjI impI)
  assume "closeRegex (input p) = Some m \<and> sets p t = Some [] \<and> t \<noteq> []"
  then show "\<exists>q. close_fn t closeRegex (p\<lparr>options := opts\<rparr>)
             = Inl (Error (''missing opening '' @ dq @ t @ dq), q)"
    by (simp add: close_fn_def match_def updatePosition_def consume_def pop_def Let_def
        isType_def)
next
  assume a: "t \<in> {''single'', ''double'', ''bracket'', ''brace'', ''paren''} \<and> inp \<noteq> []
        \<and> openRegex inp = None \<and> closeRegex inp = Some m"
  let ?P = "pair t openRegex closeRegex (Parser opts)"
  let ?q = "?P\<lparr>orig := Some inp, input := inp\<rparr>"
  from a have s: "sets ?q t = Some []" and t: "t \<noteq> []"
    by (auto simp: pair_def set_parser_def Parser_def)
  have o: "open_fn t openRegex ?q = Inr ?q"
    using a by (simp add: open_fn_def match_def Let_def pair_def set_parser_def Parser_def)
  from a s t have "\<exists>q. close_fn t closeRegex ?q
             = Inl (Error (''missing opening '' @ dq @ t @ dq), q)"
    by (simp add: close_fn_def match_def updatePosition_def consume_def pop_def Let_def
        isType_def pair_def set_parser_def Parser_def)
  then obtain q where c: "close_fn t closeRegex ?q
             = Inl (Error (''missing opening '' @ dq @ t @ dq), q)" ..
  have "next_pass ?q = Inl (Error (''missing opening '' @ dq @ t @ dq), q)"
    using o c by (simp add: next_pass_def pair_def set_parser_def Parser_def)
  with a have "parse_loop ?q = Inl (Error (''missing opening '' @ dq @ t @ dq), q)"
    by (subst parse_loop.simps) (simp add: pair_def set_parser_def Parser_def)
  then show "\<exists>q. parse inp ?P = Inl (Error (''missing opening '' @ dq @ t @ dq), q)"
    by (simp add: parse_def)
qed


section \<open>Properly nested inputs: the tree\<close>

lemma rspine_is_branch: "rspine t r \<Longrightarrow> is_branch t r"
proof (induction t r rule: rspine.induct)
  case (3 n ks i r)
  then show ?case by (auto simp: is_branch_def last_conv_nth)
qed (auto simp: is_branch_def)

lemma update_last: "ks \<noteq> [] \<Longrightarrow> ks[length ks - 1 := k] = butlast ks @ [k]"
  by (induction ks rule: rev_induct) (auto simp: list_update_append)

lemma nodes_push_flat:
  "rspine t r \<Longrightarrow> nodes_push t r c = Some t1 \<Longrightarrow> flat t1 = flat t @ flat c"
proof (induction t r c arbitrary: t1 rule: nodes_push.induct)
  case (4 n ks i r c)
  from "4.prems"(1) have ne: "ks \<noteq> []" and i: "i = length ks - 1" and sp: "rspine (last ks) r"
    by auto
  from ne i have il: "i < length ks" and nth: "ks ! i = last ks"
    by (auto simp: last_conv_nth)
  from "4.prems"(2) il obtain k where k: "nodes_push (ks ! i) r c = Some k"
    and t1: "t1 = Branch n (ks[i := k])"
    by (auto split: option.splits)
  from "4.IH"[OF il _ k] sp nth have "flat k = flat (last ks) @ flat c" by simp
  moreover from ne i have "ks[i := k] = butlast ks @ [k]" using update_last[of ks k] by simp
  moreover from ne have "concat (map flat ks) = concat (map flat (butlast ks)) @ flat (last ks)"
    by (induction ks rule: rev_induct) auto
  ultimately show ?case using t1 by simp
qed auto

lemma nodes_push_rspine:
  "rspine t r \<Longrightarrow> rspine t r1 \<Longrightarrow> length r1 \<le> length r \<Longrightarrow> nodes_push t r c = Some t1
     \<Longrightarrow> rspine t1 r1"
proof (induction t r c arbitrary: t1 r1 rule: nodes_push.induct)
  case (1 n ks c)
  then show ?case by auto
next
  case (4 n ks i r c)
  from "4.prems"(1) have ne: "ks \<noteq> []" and i: "i = length ks - 1" and sp: "rspine (last ks) r"
    by auto
  from ne i have il: "i < length ks" and nth: "ks ! i = last ks"
    by (auto simp: last_conv_nth)
  from "4.prems"(4) il obtain k where k: "nodes_push (ks ! i) r c = Some k"
    and t1: "t1 = Branch n (ks[i := k])"
    by (auto split: option.splits)
  from ne i have u: "ks[i := k] = butlast ks @ [k]" using update_last[of ks k] by simp
  show ?case
  proof (cases r1)
    case Nil
    with t1 show ?thesis by simp
  next
    case (Cons j r2)
    with "4.prems"(2) have j: "j = length ks - 1" and s2: "rspine (last ks) r2" by auto
    from Cons "4.prems"(3) have "length r2 \<le> length r" by simp
    from "4.IH"[OF il _ _ this k] sp s2 nth have "rspine k r2" by simp
    with Cons j t1 u ne show ?thesis by simp
  qed
qed auto

lemma child_ref_branch:
  "get_node t r = Some (Branch n ks) \<Longrightarrow> child_ref t r = r @ [length ks]"
  by (simp add: child_ref_def)

lemma nodes_push_rspine_new:
  "rspine t r \<Longrightarrow> nodes_push t r (Branch m js) = Some t1 \<Longrightarrow> rspine t1 (child_ref t r)"
proof (induction t r "Branch m js" arbitrary: t1 rule: nodes_push.induct)
  case (1 n ks)
  then show ?case by (auto simp: child_ref_def)
next
  case (4 n ks i r)
  from "4.prems"(1) have ne: "ks \<noteq> []" and i: "i = length ks - 1" and sp: "rspine (last ks) r"
    by auto
  from ne i have il: "i < length ks" and nth: "ks ! i = last ks"
    by (auto simp: last_conv_nth)
  from "4.prems"(2) il obtain k where k: "nodes_push (ks ! i) r (Branch m js) = Some k"
    and t1: "t1 = Branch n (ks[i := k])"
    by (auto split: option.splits)
  from ne i have u: "ks[i := k] = butlast ks @ [k]" using update_last[of ks k] by simp
  from "4.hyps"[OF il _ k] sp nth have ih: "rspine k (child_ref (ks ! i) r)" by simp
  from rspine_is_branch[OF sp] nth obtain a as where g: "get_node (ks ! i) r = Some (Branch a as)"
    by (auto simp: is_branch_def split: option.splits ast.splits)
  with il have "child_ref (Branch n ks) (i # r) = i # child_ref (ks ! i) r"
    by (simp add: child_ref_def)
  with ih t1 u ne i show ?case by simp
qed auto

lemma child_ref_length: "is_branch t r \<Longrightarrow> length (child_ref t r) = Suc (length r)"
  by (auto simp: is_branch_def child_ref_def split: option.splits ast.splits)

lemma nodes_push_verbatim:
  "nodes_push t r c = Some t1 \<Longrightarrow> verbatim f t \<Longrightarrow> verbatim f c \<Longrightarrow> verbatim f t1"
proof (induction t r c arbitrary: t1 rule: nodes_push.induct)
  case (4 n ks i r c)
  from "4.prems"(1) obtain k where i: "i < length ks" and k: "nodes_push (ks ! i) r c = Some k"
    and t1: "t1 = Branch n (ks[i := k])"
    by (auto split: if_splits option.splits)
  from "4.prems"(2) i have "verbatim f (ks ! i)" by (simp add: list_all_length)
  from "4.IH"[OF i k this "4.prems"(3)] have "verbatim f k" .
  with "4.prems"(2) t1 i show ?case
    by (auto simp: list_all_length nth_list_update)
qed auto

lemma nodes_push_root_verbatim:
  assumes "nodes_push t r c = Some t1" and "list_all (verbatim f) (children t)"
    and "verbatim f c"
  shows "list_all (verbatim f) (children t1)"
proof (cases t)
  case (Leaf n)
  with assms(1) show ?thesis by (cases r) auto
next
  case (Branch n ks)
  show ?thesis
  proof (cases r)
    case Nil
    with Branch assms show ?thesis by auto
  next
    case (Cons i r2)
    with Branch assms(1) obtain k where i: "i < length ks" and k: "nodes_push (ks ! i) r2 c = Some k"
      and t1: "t1 = Branch n (ks[i := k])"
      by (auto split: if_splits option.splits)
    from assms(2) Branch i have "verbatim f (ks ! i)" by (simp add: list_all_length)
    from nodes_push_verbatim[OF k this assms(3)] have "verbatim f k" .
    with assms(2) Branch t1 i show ?thesis
      by (auto simp: list_all_length nth_list_update)
  qed
qed

lemma nodes_push_node_of: "nodes_push t r c = Some t1 \<Longrightarrow> node_of t1 = node_of t"
  by (induction t r c arbitrary: t1 rule: nodes_push.induct)
     (auto split: if_splits option.splits)


lemma nodes_push_leaf_spans:
  "rspine t r \<Longrightarrow> nodes_push t r c = Some t1 \<Longrightarrow> leaf_spans t1 = leaf_spans t @ leaf_spans c"
proof (induction t r c arbitrary: t1 rule: nodes_push.induct)
  case (4 n ks i r c)
  from "4.prems"(1) have ne: "ks \<noteq> []" and i: "i = length ks - 1" and sp: "rspine (last ks) r"
    by auto
  from ne i have il: "i < length ks" and nth: "ks ! i = last ks"
    by (auto simp: last_conv_nth)
  from "4.prems"(2) il obtain k where k: "nodes_push (ks ! i) r c = Some k"
    and t1: "t1 = Branch n (ks[i := k])"
    by (auto split: option.splits)
  from "4.IH"[OF il _ k] sp nth have "leaf_spans k = leaf_spans (last ks) @ leaf_spans c" by simp
  moreover from ne i have "ks[i := k] = butlast ks @ [k]" using update_last[of ks k] by simp
  moreover from ne have "concat (map leaf_spans ks)
      = concat (map leaf_spans (butlast ks)) @ leaf_spans (last ks)"
    by (induction ks rule: rev_induct) auto
  ultimately show ?case using t1 by simp
qed auto

lemma nodes_push_well_placed:
  "nodes_push t r c = Some t1 \<Longrightarrow> well_placed t \<Longrightarrow> well_placed c \<Longrightarrow> well_placed t1"
proof (induction t r c arbitrary: t1 rule: nodes_push.induct)
  case (1 n ks c)
  then show ?case by (cases ks) auto
next
  case (4 n ks i r c)
  from "4.prems"(1) obtain k where i: "i < length ks" and k: "nodes_push (ks ! i) r c = Some k"
    and t1: "t1 = Branch n (ks[i := k])"
    by (auto split: if_splits option.splits)
  from "4.prems"(2) i have "well_placed (ks ! i)" by (simp add: list_all_length)
  from "4.IH"[OF i k this "4.prems"(3)] have wk: "well_placed k" .
  from nodes_push_node_of[OF k] have nk: "node_of k = node_of (ks ! i)" .
  from i have "node_of (hd (ks[i := k])) = node_of (hd ks)"
    using nk by (cases ks; cases i) (auto simp: hd_conv_nth)
  with "4.prems"(2) t1 i wk show ?case
    by (auto simp: list_all_length nth_list_update)
qed auto

lemma nodes_push_root_well_placed:
  assumes "nodes_push t r c = Some t1" and "list_all well_placed (children t)"
    and "well_placed c"
  shows "list_all well_placed (children t1)"
proof (cases t)
  case (Leaf n)
  with assms(1) show ?thesis by (cases r) auto
next
  case (Branch n ks)
  show ?thesis
  proof (cases r)
    case Nil
    with Branch assms show ?thesis by auto
  next
    case (Cons i r2)
    with Branch assms(1) obtain k where i: "i < length ks" and k: "nodes_push (ks ! i) r2 c = Some k"
      and t1: "t1 = Branch n (ks[i := k])"
      by (auto split: if_splits option.splits)
    from assms(2) Branch i have "well_placed (ks ! i)" by (simp add: list_all_length)
    from nodes_push_well_placed[OF k this assms(3)] have "well_placed k" .
    with assms(2) Branch t1 i show ?thesis
      by (auto simp: list_all_length nth_list_update)
  qed
qed

lemma nodes_push_keeps_node:
  "nodes_push t r c = Some t1 \<Longrightarrow> get_node t r1 = Some k
     \<Longrightarrow> \<exists>k1. get_node t1 r1 = Some k1 \<and> node_of k1 = node_of k"
proof (induction t r c arbitrary: t1 r1 rule: nodes_push.induct)
  case (1 n ks c)
  then show ?case by (cases r1) (auto simp: nth_append split: if_splits)
next
  case (4 n ks i r c)
  from "4.prems"(1) obtain k2 where i: "i < length ks" and k2: "nodes_push (ks ! i) r c = Some k2"
    and t1: "t1 = Branch n (ks[i := k2])"
    by (auto split: if_splits option.splits)
  show ?case
  proof (cases r1)
    case Nil
    with t1 "4.prems"(2) show ?thesis by auto
  next
    case (Cons j r2)
    show ?thesis
    proof (cases "j = i")
      case True
      with Cons "4.prems"(2) i have "get_node (ks ! i) r2 = Some k" by simp
      from "4.IH"[OF i k2 this] True Cons t1 i show ?thesis by simp
    next
      case False
      with Cons "4.prems"(2) t1 show ?thesis by (auto split: if_splits)
    qed
  qed
qed auto

lemma nodes_push_type_at:
  "nodes_push t r c = Some t1 \<Longrightarrow> is_branch t r1 \<Longrightarrow> type_at t1 r1 = type_at t r1"
  by (auto simp: is_branch_def type_at_def split: option.splits ast.splits
      dest: nodes_push_keeps_node)








section \<open>Properly nested inputs: the handlers\<close>

lemma sorted_wrt_last_le:
  "sorted_wrt (\<lambda>a b. length a < length b) xs \<Longrightarrow> r \<in> set xs
     \<Longrightarrow> length (r :: ref) \<le> length (last xs)"
proof (induction xs rule: rev_induct)
  case (snoc x xs)
  then show ?case by (auto simp: sorted_wrt_append less_imp_le)
qed simp

lemma nested_prev:
  assumes "nested p ks"
  shows "rspine (ast p) (prev p)" and "\<forall>r \<in> set (stack p). length r \<le> length (prev p)"
proof -
  from assms have r: "rspine (ast p) []" "list_all (rspine (ast p)) (stack p)"
    and s: "sorted_wrt (\<lambda>a b. length a < length b) (stack p)"
    by (simp_all add: nested_def)
  from r show "rspine (ast p) (prev p)"
    by (auto simp: prev_def list_all_iff)
  from s show "\<forall>r \<in> set (stack p). length r \<le> length (prev p)"
    by (auto simp: prev_def dest: sorted_wrt_last_le)
qed

text \<open>A push under a container of the stack, or under the root, keeps the stack in place.\<close>

lemma nested_push:
  assumes n: "nested p ks" and sp: "rspine (ast p) r"
    and le: "\<forall>x \<in> set st. length x \<le> length r" and st: "set st \<subseteq> set (stack p)"
    and t1: "nodes_push (ast p) r c = Some t1"
  shows "rspine t1 [] \<and> list_all (rspine t1) st \<and> map (type_at t1) st = map (type_at (ast p)) st"
proof -
  have root: "rspine t1 []"
    using n nodes_push_rspine[OF sp _ _ t1, of "[]"] by (simp add: nested_def)
  have old: "list_all (rspine t1) st"
    unfolding list_all_iff
  proof
    fix x assume x: "x \<in> set st"
    with n st have "rspine (ast p) x" by (auto simp: nested_def list_all_iff)
    moreover from le x have "length x \<le> length r" by simp
    ultimately show "rspine t1 x" using nodes_push_rspine[OF sp _ _ t1] by blast
  qed
  have "\<forall>x \<in> set st. type_at t1 x = type_at (ast p) x"
  proof
    fix x assume x: "x \<in> set st"
    with n st have "rspine (ast p) x" by (auto simp: nested_def list_all_iff)
    then have "is_branch (ast p) x" by (rule rspine_is_branch)
    with t1 show "type_at t1 x = type_at (ast p) x" by (rule nodes_push_type_at)
  qed
  then have "map (type_at t1) st = map (type_at (ast p)) st" by simp
  with root old show ?thesis by simp
qed

lemma nested_token:
  assumes n: "nested p ks" and t1: "nodes_push (ast p) (prev p) c = Some (ast q)"
    and q: "stack q = stack p" "sets q = sets p" "count q = count p"
  shows "nested q ks"
proof -
  from nested_prev[OF n] have sp: "rspine (ast p) (prev p)"
    and le: "\<forall>r \<in> set (stack p). length r \<le> length (prev p)" by auto
  from nested_push[OF n sp le _ t1] have root: "rspine (ast q) []"
    and old: "list_all (rspine (ast q)) (stack p)"
    and tys: "map (type_at (ast q)) (stack p) = map (type_at (ast p)) (stack p)" by auto
  from n have tk: "map (type_at (ast p)) (stack p) = ks" by (simp add: nested_def)
  from tys tk have "map (type_at (ast q)) (stack p) = ks" by (rule trans)
  with root old n q show ?thesis
    by (simp add: nested_def)
qed

lemma nested_opened:
  assumes n: "nested p ks" and k: "k \<in> set kinds" and s: "sets p k = Some s"
    and t1: "nodes_push (ast p) (prev p) (Branch nd js) = Some (ast q)" and ty: "type nd = k"
    and q: "stack q = stack p @ [child_ref (ast p) (prev p)]"
      "sets q = (sets p)(k \<mapsto> s @ [child_ref (ast p) (prev p)])" "count q = count p + 1"
  shows "nested q (ks @ [k])"
proof -
  let ?self = "child_ref (ast p) (prev p)"
  from nested_prev[OF n] have sp: "rspine (ast p) (prev p)"
    and le: "\<forall>r \<in> set (stack p). length r \<le> length (prev p)" by auto
  from nested_push[OF n sp le _ t1] have root: "rspine (ast q) []"
    and old: "list_all (rspine (ast q)) (stack p)"
    and tys: "map (type_at (ast q)) (stack p) = map (type_at (ast p)) (stack p)" by auto
  from n have tk: "map (type_at (ast p)) (stack p) = ks" by (simp add: nested_def)
  from tys tk have tq: "map (type_at (ast q)) (stack p) = ks" by (rule trans)
  from tk have len: "length (stack p) = length ks" by auto
  have new: "rspine (ast q) ?self"
    using sp t1 by (rule nodes_push_rspine_new)
  have "get_node (ast q) ?self = Some (Branch nd js)"
    using t1 by (rule nodes_push_get_child)
  with ty have tn: "type_at (ast q) ?self = k" by (simp add: type_at_def)
  have sl: "length ?self = Suc (length (prev p))"
    using rspine_is_branch[OF sp] by (rule child_ref_length)
  have sorted: "sorted_wrt (\<lambda>a b. length a < length b) (stack p @ [?self])"
    using n le sl by (auto simp: nested_def sorted_wrt_append)
  have sets: "list_all (\<lambda>k1. sets q k1
      = Some (map fst (filter (\<lambda>x. snd x = k1) (zip (stack q) (ks @ [k]))))) kinds"
    unfolding list_all_iff
  proof
    fix k1 assume k1: "k1 \<in> set kinds"
    with n have "sets p k1 = Some (map fst (filter (\<lambda>x. snd x = k1) (zip (stack p) ks)))"
      by (simp add: nested_def list_all_iff)
    then show "sets q k1
      = Some (map fst (filter (\<lambda>x. snd x = k1) (zip (stack q) (ks @ [k]))))"
      using s len q by auto
  qed
  from n s k have dom: "dom (sets q) = set kinds" by (auto simp: nested_def q)
  from n k have sub: "set (ks @ [k]) \<subseteq> set kinds" by (simp add: nested_def)
  from n q have cnt: "count q = int (length (stack q))" by (simp add: nested_def)
  from tq tn q have tyq: "map (type_at (ast q)) (stack q) = ks @ [k]" by simp
  from root old new q have sps: "rspine (ast q) [] \<and> list_all (rspine (ast q)) (stack q)" by simp
  show ?thesis
    unfolding nested_def using tyq sub dom sets cnt sps sorted q(1) by simp
qed

lemma nested_closed:
  assumes n: "nested p (ks @ [k])"
    and t1: "nodes_push (ast p) (last (stack p)) c = Some (ast q)"
    and q: "stack q = butlast (stack p)" "count q = count p - 1"
      "sets q = (sets p)(k \<mapsto> butlast (the (sets p k)))"
  shows "nested q ks"
proof -
  from n have tk0: "map (type_at (ast p)) (stack p) = ks @ [k]" by (simp add: nested_def)
  then have len: "length (stack p) = Suc (length ks)"
    by (auto dest: arg_cong[where f = length])
  then obtain st r where st: "stack p = st @ [r]" and lst: "length st = length ks"
    by (cases "stack p" rule: rev_cases) auto
  from tk0 st lst have tk: "map (type_at (ast p)) st = ks" by simp
  from n have k: "k \<in> set kinds" and sub: "set ks \<subseteq> set kinds" by (simp_all add: nested_def)
  from n st have sp: "rspine (ast p) r" by (simp add: nested_def list_all_iff)
  from n st have srt: "sorted_wrt (\<lambda>a b. length a < length b) (st @ [r])"
    by (simp add: nested_def)
  then have le: "\<forall>x \<in> set st. length x \<le> length r"
    by (auto simp: sorted_wrt_append less_imp_le)
  from st have stsub: "set st \<subseteq> set (stack p)" by auto
  from t1 st have t1': "nodes_push (ast p) r c = Some (ast q)" by simp
  from nested_push[OF n sp le stsub t1'] have root: "rspine (ast q) []"
    and old: "list_all (rspine (ast q)) st"
    and tys: "map (type_at (ast q)) st = map (type_at (ast p)) st" by auto
  from tys tk have tq: "map (type_at (ast q)) st = ks" by (rule trans)
  have sets: "list_all (\<lambda>k1. sets q k1
      = Some (map fst (filter (\<lambda>x. snd x = k1) (zip (stack q) ks)))) kinds"
    unfolding list_all_iff
  proof
    fix k1 assume k1: "k1 \<in> set kinds"
    with n st lst have "sets p k1
        = Some (map fst (filter (\<lambda>x. snd x = k1) (zip st ks)) @ (if k = k1 then [r] else []))"
      by (simp add: nested_def list_all_iff)
    then show "sets q k1 = Some (map fst (filter (\<lambda>x. snd x = k1) (zip (stack q) ks)))"
      using q st by auto
  qed
  from n k have dom: "dom (sets q) = set kinds" by (auto simp: nested_def q)
  from n q st have cnt: "count q = int (length (stack q))" by (simp add: nested_def)
  from srt have srt2: "sorted_wrt (\<lambda>a b. length a < length b) st"
    by (simp add: sorted_wrt_append)
  from q st have sq: "stack q = st" by simp
  show ?thesis
    unfolding nested_def sq using tq sub dom sets[unfolded sq] cnt[unfolded sq] root old srt2
    by simp
qed

lemma moved:
  "ast (updatePosition str len p) = ast p" "stack (updatePosition str len p) = stack p"
  "sets (updatePosition str len p) = sets p" "count (updatePosition str len p) = count p"
  "prev (updatePosition str len p) = prev p"
  "input (updatePosition str len p) = drop len (input p)"
  "parsed_text (updatePosition str len p) = parsed_text p @ str"
  "column (updatePosition str len p) = column p + len"
  "orig (updatePosition str len p) = orig p"
  by (simp_all add: updatePosition_def consume_def prev_def)

lemma updatePosition_nothing: "updatePosition [] 0 p = p"
  by (simp add: updatePosition_def consume_def)

lemma capture_step:
  assumes n: "nested p ks" and m: "re (input p) = Some m" and ne: "m0 m \<noteq> []"
  shows "\<exists>q nd. capture_fn t re p = Inr q \<and> nested q ks
     \<and> input q = drop (length (m0 m)) (input p) \<and> parsed_text q = parsed_text p @ m0 m
     \<and> column q = column p + length (m0 m)
     \<and> effected p q (Token nd) \<and> type nd = t"
proof -
  define q0 where "q0 = updatePosition (m0 m) (length (m0 m)) p"
  note q0 = moved[of "m0 m" "length (m0 m)" p, folded q0_def]
  let ?nd = "(pos (position_start p) q0 ((new_node t)\<lparr>parsed := Some (parsed_text p),
               rest := Some (input q0), val := Some (m0 m)\<rparr>))\<lparr>parent := Some (prev p)\<rparr>"
  have ma: "match re p = (Some m, q0)"
    using m by (simp add: q0_def match_def)
  from nested_prev[OF n] have sp: "rspine (ast p) (prev p)" by auto
  from rspine_is_branch[OF sp] obtain t1 where t1: "nodes_push (ast p) (prev p) (Leaf ?nd) = Some t1"
    using nodes_push_branch by blast
  let ?q = "q0\<lparr>ast := t1\<rparr>"
  have pc: "push_child (prev p) (Leaf ?nd) q0 = Inr ?q"
    using t1 by (simp add: push_child_def q0)
  have c: "capture_fn t re p = Inr ?q"
    using ma pc ne by (simp add: capture_fn_def Let_def q0)
  have nq: "nested ?q ks"
  proof (rule nested_token[OF n])
    show "nodes_push (ast p) (prev p) (Leaf ?nd) = Some (ast ?q)" using t1 by simp
  qed (simp_all add: q0)
  have ef: "effected p ?q (Token ?nd)"
    using t1 by (simp add: q0 pos_def new_node_def made_at_def position_start_def to_string_def)
  have ty: "type ?nd = t" by (simp add: pos_def new_node_def)
  from c nq ef ty show ?thesis by (auto simp: q0 simp del: effected.simps)
qed

lemma open_step:
  assumes n: "nested p ks" and m: "re (input p) = Some m" and ne: "m0 m \<noteq> []"
    and k: "k \<in> set kinds"
  shows "\<exists>q nd opn. open_fn k re p = Inr q \<and> nested q (ks @ [k])
     \<and> input q = drop (length (m0 m)) (input p) \<and> parsed_text q = parsed_text p @ m0 m
     \<and> column q = column p + length (m0 m)
     \<and> effected p q (Opened nd opn) \<and> type nd = k"
proof -
  define q0 where "q0 = updatePosition (m0 m) (length (m0 m)) p"
  note q0 = moved[of "m0 m" "length (m0 m)" p, folded q0_def]
  let ?q2 = "q0\<lparr>specialChars := True\<rparr>"
  let ?pr = "prev p"
  let ?self = "child_ref (ast p) ?pr"
  let ?opn = "(pos (position_start p) ?q2 ((new_node (k @ ''.open''))\<lparr>val := Some (m0 m)\<rparr>))\<lparr>parent := Some ?self\<rparr>"
  let ?n = "(pos (position_start p) ?q2 ((new_node k)\<lparr>prefix := m1 m,
               parsed := Some (parsed_text p), rest := Some (input ?q2)\<rparr>))\<lparr>parent := Some ?pr\<rparr>"
  let ?c = "Branch ?n [Leaf ?opn]"
  have ma: "match re p = (Some m, q0)"
    using m by (simp add: q0_def match_def)
  from n k obtain s where s: "sets p k = Some s"
    by (auto simp: nested_def list_all_iff)
  let ?p3 = "?q2\<lparr>count := count ?q2 + 1, stack := stack p @ [?self],
                sets := (sets p)(k \<mapsto> s @ [?self])\<rparr>"
  have pu: "push k ?self ?q2 = Inr ?p3"
    using s by (simp add: push_def Let_def q0)
  from nested_prev[OF n] have sp: "rspine (ast p) ?pr" by auto
  from rspine_is_branch[OF sp] obtain t1 where t1: "nodes_push (ast p) ?pr ?c = Some t1"
    using nodes_push_branch by blast
  let ?q = "?p3\<lparr>ast := t1\<rparr>"
  have pc: "push_child ?pr ?c ?p3 = Inr ?q"
    using t1 by (simp add: push_child_def q0)
  have o: "open_fn k re p = Inr ?q"
    using ma pu pc ne by (simp add: open_fn_def Let_def q0)
  have ty: "type ?n = k" by (simp add: pos_def new_node_def)
  have nq: "nested ?q (ks @ [k])"
  proof (rule nested_opened[OF n k s])
    show "nodes_push (ast p) (prev p) ?c = Some (ast ?q)" using t1 by simp
    show "type ?n = k" by (rule ty)
  qed (simp_all add: q0)
  have ef: "effected p ?q (Opened ?n ?opn)"
    using t1 k by (simp add: q0 pos_def new_node_def made_at_def position_start_def to_string_def)
  from o nq ef ty show ?thesis by (auto simp: q0 simp del: effected.simps)
qed

lemma close_step:
  assumes n: "nested p (ks @ [k])" and m: "re (input p) = Some m"
  shows "\<exists>q nd. close_fn k re p = Inr q \<and> nested q ks
     \<and> input q = drop (length (m0 m)) (input p) \<and> parsed_text q = parsed_text p @ m0 m
     \<and> column q = column p + length (m0 m)
     \<and> effected p q (Closed nd) \<and> type nd = k @ ''.close''"
proof -
  define q0 where "q0 = updatePosition (m0 m) (length (m0 m)) p"
  note q0 = moved[of "m0 m" "length (m0 m)" p, folded q0_def]
  from n have tk0: "map (type_at (ast p)) (stack p) = ks @ [k]" by (simp add: nested_def)
  then have len: "length (stack p) = Suc (length ks)"
    by (auto dest: arg_cong[where f = length])
  then obtain st r where st: "stack p = st @ [r]" and lst: "length st = length ks"
    by (cases "stack p" rule: rev_cases) auto
  from tk0 st lst have tr: "type_at (ast p) r = k" by simp
  from n have k: "k \<in> set kinds" by (simp add: nested_def)
  have ma: "match re p = (Some m, q0)"
    using m by (simp add: q0_def match_def)
  let ?s = "map fst (filter (\<lambda>x. snd x = k) (zip st ks))"
  from n k st lst have s: "sets p k = Some (?s @ [r])"
    by (simp add: nested_def list_all_iff)
  let ?p2 = "q0\<lparr>count := count p - 1, stack := st, sets := (sets p)(k \<mapsto> ?s)\<rparr>"
  have po: "pop k q0 = Inr (Some r, ?p2)"
    using s st by (simp add: pop_def Let_def q0)
  have it: "\<not> isType (ast ?p2) (JObject r) (JString k)"
    by (simp add: isType_def)
  let ?n = "(pos (position_start p) ?p2 ((new_node (k @ ''.close''))\<lparr>
              rest := Some (input ?p2), suffix := m1 m, val := Some (m0 m)\<rparr>))\<lparr>parent := Some r\<rparr>"
  from n st have sp: "rspine (ast p) r" by (simp add: nested_def list_all_iff)
  from rspine_is_branch[OF sp] obtain t1 where t1: "nodes_push (ast p) r (Leaf ?n) = Some t1"
    using nodes_push_branch by blast
  let ?q = "?p2\<lparr>ast := t1\<rparr>"
  have pc: "push_child r (Leaf ?n) ?p2 = Inr ?q"
    using t1 by (simp add: push_child_def q0)
  have c: "close_fn k re p = Inr ?q"
    using ma po it pc by (simp add: close_fn_def Let_def)
  have nq: "nested ?q ks"
  proof (rule nested_closed[OF n])
    show "nodes_push (ast p) (last (stack p)) (Leaf ?n) = Some (ast ?q)" using t1 st by simp
  qed (simp_all add: q0 st s)
  have ef: "effected p ?q (Closed ?n)"
    using t1 st tr
    by (simp add: q0 pos_def new_node_def made_at_def position_start_def to_string_def)
  have ty: "type ?n = k @ ''.close''" by (simp add: pos_def new_node_def)
  from c nq ef ty show ?thesis by (auto simp: q0 simp del: effected.simps)
qed

text \<open>A handler that a scan lets pass does what the scan says.\<close>

lemma handler_step:
  assumes tr: "tracks p s" and kn: "kind_known h" and sc: "scan_handler h s = Some s1"
  shows "\<exists>q e. run_handler h p = Inr q \<and> tracks q s1 \<and> effected p q e \<and> makes h e
     \<and> column p \<le> column q"
proof -
  obtain ks inp tx where s: "s = (ks, inp, tx)" by (cases s)
  from tr s have i: "input p = inp" and tx: "parsed_text p = tx" and n: "nested p ks"
    by (simp_all add: tracks_def)
  have "effected p p Skip \<and> makes h Skip \<and> column p \<le> column p" by simp
  then have skip: "run_handler h p = Inr p \<Longrightarrow> tracks p s1
      \<Longrightarrow> \<exists>q e. run_handler h p = Inr q \<and> tracks q s1 \<and> effected p q e \<and> makes h e
     \<and> column p \<le> column q" by blast
  show ?thesis
  proof (cases h)
    case (Capture t re)
    show ?thesis
    proof (cases "re inp")
      case None
      with Capture i have "capture_fn t re p = Inr p"
        by (simp add: capture_fn_def match_def Let_def)
      with None Capture sc s tr skip show ?thesis by auto
    next
      case (Some m)
      show ?thesis
      proof (cases "m0 m = []")
        case True
        with Some Capture i have "capture_fn t re p = Inr p"
          by (simp add: capture_fn_def match_def Let_def updatePosition_nothing)
        moreover from True Some Capture sc s have "s1 = s" by simp
        ultimately show ?thesis using Capture tr skip by auto
      next
        case False
        from Some i have rm: "re (input p) = Some m" by simp
        from capture_step[where re = re and m = m and t = t, OF n rm False] obtain q nd where
          "capture_fn t re p = Inr q" "nested q ks"
          "input q = drop (length (m0 m)) (input p)" "parsed_text q = parsed_text p @ m0 m"
          "column q = column p + length (m0 m)" "effected p q (Token nd)" "type nd = t"
          by blast
        moreover from Some Capture sc s have "s1 = (ks, drop (length (m0 m)) inp, tx @ m0 m)"
          by simp
        ultimately show ?thesis using Capture i tx
          by (auto simp: tracks_def simp del: effected.simps intro!: exI[of _ q] exI[of _ "Token nd"])
      qed
    qed
  next
    case (PairOpen k re)
    show ?thesis
    proof (cases "re inp")
      case None
      with PairOpen i have "open_fn k re p = Inr p"
        by (simp add: open_fn_def match_def Let_def)
      with None PairOpen sc s tr skip show ?thesis by auto
    next
      case (Some m)
      show ?thesis
      proof (cases "m0 m = []")
        case True
        with Some PairOpen i have "open_fn k re p = Inr p"
          by (simp add: open_fn_def match_def Let_def updatePosition_nothing)
        moreover from True Some PairOpen sc s have "s1 = s" by simp
        ultimately show ?thesis using PairOpen tr skip by auto
      next
        case False
        from Some i have rm: "re (input p) = Some m" by simp
        from kn PairOpen have kk: "k \<in> set kinds" by (simp add: kind_known_def)
        obtain q nd opn where
          "open_fn k re p = Inr q" "nested q (ks @ [k])"
          "input q = drop (length (m0 m)) (input p)" "parsed_text q = parsed_text p @ m0 m"
          "column q = column p + length (m0 m)" "effected p q (Opened nd opn)" "type nd = k"
          using open_step[where re = re and m = m, OF n rm False kk] by blast
        moreover from False Some PairOpen sc s
        have "s1 = (ks @ [k], drop (length (m0 m)) inp, tx @ m0 m)" by simp
        ultimately show ?thesis using PairOpen i tx
          by (auto simp: tracks_def simp del: effected.simps
              intro!: exI[of _ q] exI[of _ "Opened nd opn"])
      qed
    qed
  next
    case (PairClose k re)
    show ?thesis
    proof (cases "re inp")
      case None
      with PairClose i have "close_fn k re p = Inr p"
        by (simp add: close_fn_def match_def Let_def)
      with None PairClose sc s tr skip show ?thesis by auto
    next
      case (Some m)
      with PairClose sc s have ks: "ks \<noteq> []" "last ks = k"
        and s1: "s1 = (butlast ks, drop (length (m0 m)) inp, tx @ m0 m)"
        by (auto split: if_splits)
      from ks have "ks = butlast ks @ [k]" by (metis append_butlast_last_id)
      with n have n': "nested p (butlast ks @ [k])" by simp
      from Some i have rm: "re (input p) = Some m" by simp
      from close_step[where re = re and m = m, OF n' rm] obtain q nd where
        "close_fn k re p = Inr q" "nested q (butlast ks)"
        "input q = drop (length (m0 m)) (input p)" "parsed_text q = parsed_text p @ m0 m"
        "column q = column p + length (m0 m)" "effected p q (Closed nd)"
        "type nd = k @ ''.close''"
        by blast
      with s1 show ?thesis using PairClose i tx
        by (auto simp: tracks_def simp del: effected.simps
            intro!: exI[of _ q] exI[of _ "Closed nd"])
    qed
  qed
qed

section \<open>Properly nested inputs: the loop\<close>

lemma eos_step:
  assumes n: "nested p ks" and i: "input p = []" and a: "append_text p = None"
  shows "\<exists>q nd. eos p = Inr q \<and> nested q ks \<and> q = p\<lparr>ast := ast q\<rparr>
     \<and> effected p q (Token nd) \<and> type nd = ''eos''"
proof -
  let ?nd = "pos (position_start p) p ((new_node ''eos'')\<lparr>val := Some []\<rparr>)"
  from nested_prev[OF n] have sp: "rspine (ast p) (prev p)" by auto
  from rspine_is_branch[OF sp] obtain t1 where t1: "nodes_push (ast p) (prev p) (Leaf ?nd) = Some t1"
    using nodes_push_branch by blast
  let ?q = "p\<lparr>ast := t1\<rparr>"
  have e: "eos p = Inr ?q"
    using t1 i a by (simp add: eos_def Let_def push_child_def)
  have nq: "nested ?q ks"
  proof (rule nested_token[OF n])
    show "nodes_push (ast p) (prev p) (Leaf ?nd) = Some (ast ?q)" using t1 by simp
  qed simp_all
  have ef: "effected p ?q (Token ?nd)"
    using t1 by (simp add: pos_def new_node_def made_at_def position_start_def to_string_def)
  have ty: "type ?nd = ''eos''" by (simp add: pos_def new_node_def)
  from e nq ef ty show ?thesis by (auto simp del: effected.simps)
qed

text \<open>
  A pass and the loop over a properly nested input: every handler returns, and what
  holds of the tree under every effect of a handler holds of what is left.
\<close>

lemma pass_sim:
  assumes step: "\<And>h p q e ks. h \<in> H \<Longrightarrow> nested p ks \<Longrightarrow> K p \<Longrightarrow> effected p q e
      \<Longrightarrow> makes h e \<Longrightarrow> column p \<le> column q \<Longrightarrow> K q"
    and tr: "tracks p s" and k: "K p"
    and tb: "\<forall>t \<in> set ts. \<forall>h. parsers p t = Some h \<longrightarrow> h \<in> H \<and> kind_known h"
    and sc: "scan_from (parsers p) ts s = Some s1"
  shows "\<exists>q. next_from ts p = Inr q \<and> tracks q s1 \<and> K q \<and> same_config p q"
  using tr k tb sc
proof (induction ts arbitrary: p s)
  case Nil
  then show ?case by (auto simp: same_config_refl)
next
  case (Cons t ts)
  from Cons.prems(4) obtain h s2 where h: "parsers p t = Some h"
    and s2: "scan_handler h s = Some s2" and r: "scan_from (parsers p) ts s2 = Some s1"
    by (auto split: option.splits)
  from Cons.prems(3) h have hH: "h \<in> H" and kn: "kind_known h" by auto
  from handler_step[OF Cons.prems(1) kn s2] obtain q e where q: "run_handler h p = Inr q"
    and tq: "tracks q s2" and ef: "effected p q e" and mk: "makes h e"
    and co: "column p \<le> column q" by blast
  obtain ks inp tx where "s = (ks, inp, tx)" by (cases s)
  with Cons.prems(1) have "nested p ks" by (simp add: tracks_def)
  from step[OF hH this Cons.prems(2) ef mk co] have kq: "K q" .
  from run_handler_config[OF q] have c: "same_config p q" .
  then have pq: "parsers q = parsers p" by (simp add: same_config_def)
  from Cons.prems(3) pq have tb': "\<forall>t \<in> set ts. \<forall>h. parsers q t = Some h \<longrightarrow> h \<in> H \<and> kind_known h"
    by simp
  from r pq have r': "scan_from (parsers q) ts s2 = Some s1" by simp
  from Cons.IH[OF tq kq tb' r'] obtain q1 where "next_from ts q = Inr q1" "tracks q1 s1" "K q1"
    "same_config q q1" by blast
  with h q c show ?case by (auto intro: same_config_trans)
qed

lemma loop_sim:
  assumes step: "\<And>h p q e ks. h \<in> H \<Longrightarrow> nested p ks \<Longrightarrow> K p \<Longrightarrow> effected p q e
      \<Longrightarrow> makes h e \<Longrightarrow> column p \<le> column q \<Longrightarrow> K q"
  shows "tracks p s \<Longrightarrow> K p
    \<Longrightarrow> \<forall>t \<in> set (types p). \<forall>h. parsers p t = Some h \<longrightarrow> h \<in> H \<and> kind_known h
    \<Longrightarrow> scan_loop (parsers p) (types p) s = Some s1
    \<Longrightarrow> \<exists>q. parse_loop p = Inr q \<and> tracks q s1 \<and> K q \<and> same_config p q"
proof (induction p arbitrary: s rule: parse_loop.induct)
  case (1 p)
  obtain ks inp tx where s: "s = (ks, inp, tx)" by (cases s)
  with "1.prems"(1) have i: "input p = inp" by (simp add: tracks_def)
  show ?case
  proof (cases "inp = []")
    case True
    with "1.prems"(4) s have "s1 = s" by (simp add: scan_loop.simps)
    moreover from True i have "parse_loop p = Inr p" by (simp add: parse_loop.simps)
    ultimately show ?thesis using "1.prems"(1,2) by (auto simp: same_config_refl)
  next
    case False
    with "1.prems"(4) s obtain ks2 inp2 tx2 where
      f: "scan_from (parsers p) (types p) s = Some (ks2, inp2, tx2)" and ne: "inp2 \<noteq> inp"
      and l: "scan_loop (parsers p) (types p) (ks2, inp2, tx2) = Some s1"
      by (auto simp: scan_loop.simps split: option.splits if_splits)
    have "\<exists>q. next_from (types p) p = Inr q \<and> tracks q (ks2, inp2, tx2) \<and> K q
        \<and> same_config p q"
      by (rule pass_sim[where H = H and K = K, OF _ "1.prems"(1,2,3) f]) (rule step)
    then obtain q where
      q: "next_pass p = Inr q" and tq: "tracks q (ks2, inp2, tx2)" and kq: "K q"
      and c: "same_config p q"
      unfolding next_pass_def by blast
    from tq have iq: "input q = inp2" by (simp add: tracks_def)
    from c have pq: "parsers q = parsers p" "types q = types p" by (simp_all add: same_config_def)
    from "1.prems"(3) pq have tb: "\<forall>t \<in> set (types q). \<forall>h. parsers q t = Some h \<longrightarrow> h \<in> H \<and> kind_known h"
      by simp
    from l pq have l': "scan_loop (parsers q) (types q) (ks2, inp2, tx2) = Some s1" by simp
    from False i have a: "input p \<noteq> []" by simp
    from ne i iq have b: "\<not> (input q \<noteq> [] \<and> input p = input q)" by simp
    from "1.IH"[OF a q b tq kq tb l'] obtain q1 where "parse_loop q = Inr q1" "tracks q1 s1" "K q1"
      "same_config q q1" by blast
    moreover from a q b have "parse_loop p = parse_loop q" by (subst parse_loop.simps) auto
    ultimately show ?thesis using c by (auto intro: same_config_trans)
  qed
qed

lemma scan_loop_end: "scan_loop ps ts s = Some (ks, inp, tx) \<Longrightarrow> inp = []"
proof (induction ps ts s rule: scan_loop.induct)
  case (1 ps ts ks0 inp0 tx0)
  show ?case
  proof (cases "inp0 = []")
    case True
    with "1.prems" show ?thesis by (simp add: scan_loop.simps)
  next
    case False
    with "1.prems" obtain ks2 inp2 tx2 where
      f: "scan_from ps ts (ks0, inp0, tx0) = Some (ks2, inp2, tx2)" and ne: "inp2 \<noteq> inp0"
      and l: "scan_loop ps ts (ks2, inp2, tx2) = Some (ks, inp, tx)"
      by (auto simp: scan_loop.simps split: option.splits if_splits)
    from "1.IH"[OF False f refl refl ne l] show ?thesis .
  qed
qed

lemma fresh_tracks:
  assumes "fresh p"
  shows "tracks (p\<lparr>orig := Some inp, input := inp\<rparr>) ([], inp, [])"
  using assms by (auto simp: fresh_def tracks_def nested_def Parser_def kinds_def)

lemma kinds_known_table:
  "kinds_known p \<Longrightarrow>
     \<forall>t \<in> set (types p). \<forall>h. parsers p t = Some h \<longrightarrow> h \<in> {h. \<exists>t \<in> set (types p). parsers p t = Some h} \<and> kind_known h"
  by (auto simp: kinds_known_def list_all_iff split: option.splits)

section \<open>Properly nested inputs: the containers not closed\<close>






lemma open_not_close: "k @ ''.open'' \<noteq> k @ ''.close''"
  by simp







lemma parse_after_loop:
  assumes l: "parse_loop (P\<lparr>orig := Some inp, input := inp\<rparr>) = Inr q"
    and c: "same_config (P\<lparr>orig := Some inp, input := inp\<rparr>) q"
    and s: "stack q = [] \<or> \<not> strict (options P)"
  shows "parse inp P = eos q"
  using l c s by (auto simp: parse_def same_config_def)



section \<open>The extglob parser: the stacks\<close>



lemma open_count_cong:
  "sets q = sets p \<Longrightarrow> open_count q = open_count p"
  by (simp add: open_count_def)


















lemma fresh_nested_parser: "fresh (nested_parser opts)" "fresh (paren_parser opts)"
  by (simp_all add: fresh_def nested_parser_def paren_parser_def pair_def set_parser_def
      Parser_def)

lemma kinds_known_nested_parser: "kinds_known (nested_parser opts)"
  by (simp add: kinds_known_def kind_known_def kinds_def nested_parser_def paren_parser_def
      pair_def set_parser_def Parser_def)



section \<open>Progress of the two loops\<close>

lemma next_pass_no_growth:
  assumes "next_pass p = Inr p1"
  shows "input p1 = input p \<or> length (input p1) < length (input p)"
  using next_pass_shorter[OF assms] by metis

lemma passes_bound: "passes p \<le> length (input p)"
proof (induction p rule: passes.induct)
  case (1 p)
  show ?case
  proof (cases "input p = []")
    case True
    then show ?thesis by (simp add: passes.simps)
  next
    case False
    then have pos: "1 \<le> length (input p)" by (cases "input p") auto
    show ?thesis
    proof (cases "next_pass p")
      case (Inl a)
      with False pos show ?thesis by (simp add: passes.simps)
    next
      case (Inr q)
      show ?thesis
      proof (cases "input q \<noteq> [] \<and> input p = input q")
        case True
        with False Inr pos show ?thesis by (simp add: passes.simps)
      next
        case c: False
        then have "input p \<noteq> input q" using False by auto
        with Inr have "length (input q) < length (input p)" by (rule next_pass_shorter)
        moreover from "1.IH"[OF False Inr c] have "passes q \<le> length (input q)" .
        moreover from False Inr c have "passes p = 1 + passes q"
          by (subst passes.simps) auto
        ultimately show ?thesis by simp
      qed
    qed
  qed
qed

text \<open>
  C2, as amended. In the extglob parser, whatever handlers \<^verbatim>\<open>capture\<close> and \<^verbatim>\<open>pair\<close>
  have registered: a pass of \<^verbatim>\<open>next\<close> that returns leaves the input as it was or
  shorter; when it leaves a non-empty input as it was, \<^verbatim>\<open>parse\<close> throws the error
  \<^verbatim>\<open>no parsers registered for\<close> with the first character of the input; so the loop
  makes no more passes than the input has characters, and it always ends (it is a
  total function). In the snapdragon parser, a pass in which no middleware returns
  a node ends the loop, and \<^verbatim>\<open>parse\<close> returns with the input that is left: no error
  is raised.
\<close>

theorem parse_loop_progress:
  "(next_pass p = Inr p1 \<longrightarrow> input p1 = input p \<or> length (input p1) < length (input p))
   \<and> (input p \<noteq> [] \<and> next_pass p = Inr p1 \<and> input p1 = input p \<longrightarrow>
        parse_loop p
          = Inl (Error (''no parsers registered for: '' @ dq @ [hd (input p)] @ dq), p1))
   \<and> passes p \<le> length (input p)
   \<and> (input_sd q \<noteq> [] \<and> run fns q = Inr (None, q1) \<longrightarrow> parse_loop_sd fns q = Some (Inr q1))"
proof (intro conjI impI)
  assume "next_pass p = Inr p1"
  then show "input p1 = input p \<or> length (input p1) < length (input p)"
    by (rule next_pass_no_growth)
next
  assume "input p \<noteq> [] \<and> next_pass p = Inr p1 \<and> input p1 = input p"
  then show "parse_loop p
          = Inl (Error (''no parsers registered for: '' @ dq @ [hd (input p)] @ dq), p1)"
    by (subst parse_loop.simps) simp
next
  show "passes p \<le> length (input p)" by (rule passes_bound)
next
  assume "input_sd q \<noteq> [] \<and> run fns q = Inr (None, q1)"
  then show "parse_loop_sd fns q = Some (Inr q1)"
    by (subst parse_loop_sd.simps) simp
qed

text \<open>The input \<^verbatim>\<open>a\<close>, which neither a parenthesis handler nor the dot middleware takes.\<close>

theorem parse_loop_progress_witness:
  "next_pass ((paren_parser extglob_opts)\<lparr>input := ''a''\<rparr>)
      = Inr ((paren_parser extglob_opts)\<lparr>input := ''a''\<rparr>)
   \<and> parse_loop ((paren_parser extglob_opts)\<lparr>input := ''a''\<rparr>)
      = Inl (Error (''no parsers registered for: '' @ dq @ ''a'' @ dq),
             (paren_parser extglob_opts)\<lparr>input := ''a''\<rparr>)
   \<and> passes ((paren_parser extglob_opts)\<lparr>input := ''a''\<rparr>) \<le> 1
   \<and> run [rule_mw ''dot'' (lit CHR ''.'')] ((Parser_sd opts0)\<lparr>input_sd := ''a''\<rparr>)
      = Inr (None, (Parser_sd opts0)\<lparr>input_sd := ''a''\<rparr>)
   \<and> parse_loop_sd [rule_mw ''dot'' (lit CHR ''.'')] ((Parser_sd opts0)\<lparr>input_sd := ''a''\<rparr>)
      = Some (Inr ((Parser_sd opts0)\<lparr>input_sd := ''a''\<rparr>))"
proof -
  let ?p = "(paren_parser extglob_opts)\<lparr>input := ''a''\<rparr>"
  let ?q = "(Parser_sd opts0)\<lparr>input_sd := ''a''\<rparr>"
  let ?F = "[rule_mw ''dot'' (lit CHR ''.'')]"
  have n: "next_pass ?p = Inr ?p"
    by (simp add: next_pass_def paren_parser_def pair_def set_parser_def Parser_def
        open_fn_def close_fn_def match_def lit_def Let_def)
  have r: "run ?F ?q = Inr (None, ?q)"
    by (simp add: run_def rule_mw_def match_sd_def lit_def Let_def Parser_sd_def)
  have i: "input ?p = ''a''" "input_sd ?q = ''a''" by simp_all
  from parse_loop_progress[of ?p ?p ?q ?F ?q] n r i show ?thesis by simp
qed

text \<open>
  A middleware that matches \<^verbatim>\<open>/^a*/\<close> returns a node on the input \<^verbatim>\<open>b\<close> and
  consumes nothing: the loop of the snapdragon parser never ends there.
\<close>

lemma stuck_loop:
  assumes "parse_loop_sd [rule_mw ''as'' (star CHR ''a'')] p = Some y"
  shows "input_sd p \<noteq> ''b''"
proof -
  let ?F = "[rule_mw ''as'' (star CHR ''a'')]"
  have "?F = ?F \<longrightarrow> input_sd p \<noteq> ''b''"
  proof (rule parse_loop_sd.raw_induct[where
        P = "\<lambda>fns p y. fns = ?F \<longrightarrow> input_sd p \<noteq> ''b''", OF _ assms])
    fix loop :: "middleware list \<Rightarrow> snapdragon \<Rightarrow> ((exn \<times> snapdragon) + snapdragon) option"
    fix fns p y
    assume IH: "\<And>fns p y. loop fns p = Some y \<Longrightarrow> fns = ?F \<longrightarrow> input_sd p \<noteq> ''b''"
    assume body: "(if input_sd p = [] then Some (Inr p)
      else case run fns p of Inl e \<Rightarrow> Some (Inl e)
           | Inr (None, p1) \<Rightarrow> Some (Inr p1)
           | Inr (Some n, p1) \<Rightarrow> loop fns (p1\<lparr>nodes := nodes p1 @ [n]\<rparr>)) = Some y"
    show "fns = ?F \<longrightarrow> input_sd p \<noteq> ''b''"
    proof (intro impI notI)
      assume f: "fns = ?F" and b: "input_sd p = ''b''"
      from b have "\<exists>n. run ?F p = Inr (Some n, p)"
        by (simp add: run_def rule_mw_def match_sd_def star_def advance_def
            updatePosition_sd_def Let_def)
      then obtain n where "run ?F p = Inr (Some n, p)" ..
      with body f b have "loop ?F (p\<lparr>nodes := nodes p @ [n]\<rparr>) = Some y" by simp
      from IH[OF this] b show False by simp
    qed
  qed
  then show ?thesis by simp
qed

text \<open>
  C2 as stated fails in middleware mode: on \<^verbatim>\<open>a\<close>, with the dot middleware alone,
  \<^verbatim>\<open>parse\<close> returns with the input unconsumed and raises nothing; and with the
  middleware for \<^verbatim>\<open>/^a*/\<close> the loop on \<^verbatim>\<open>b\<close> runs forever.
\<close>

theorem middleware_loop_counterexample:
  "(case parse_sd [rule_mw ''dot'' (lit CHR ''.'')] (JString ''a'') (Parser_sd opts0) of
      Some (Inr p) \<Rightarrow> input_sd p = ''a'' \<and> nodes p = []
    | _ \<Rightarrow> False)
   \<and> parse_sd [rule_mw ''as'' (star CHR ''a'')] (JString ''b'') (Parser_sd opts0) = None"
proof
  show "case parse_sd [rule_mw ''dot'' (lit CHR ''.'')] (JString ''a'') (Parser_sd opts0) of
      Some (Inr p) \<Rightarrow> input_sd p = ''a'' \<and> nodes p = []
    | _ \<Rightarrow> False" by code_simp
next
  let ?F = "[rule_mw ''as'' (star CHR ''a'')]"
  let ?q = "(Parser_sd opts0)\<lparr>original := original (Parser_sd opts0) @ ''b'',
      input_sd := input_sd (Parser_sd opts0) @ ''b''\<rparr>"
  have "parse_loop_sd ?F ?q = None"
  proof (cases "parse_loop_sd ?F ?q")
    case (Some y)
    from stuck_loop[OF Some] show ?thesis by (simp add: Parser_sd_def)
  qed simp
  then show "parse_sd ?F (JString ''b'') (Parser_sd opts0) = None"
    by (simp add: parse_sd_def)
qed

section \<open>Positions\<close>

lemma lastIndexOf_absent: "c \<notin> set s \<Longrightarrow> lastIndexOf s c = -1"
  by (induction s) (auto simp: Let_def)

lemma lastIndexOf_ge: "lastIndexOf s c \<ge> -1"
  by (induction s) (auto simp: Let_def)

lemma lastIndexOf_last:
  "c \<notin> set b \<Longrightarrow> lastIndexOf (a @ c # b) c = int (length a)"
proof (induction a)
  case Nil
  then show ?case by (simp add: lastIndexOf_absent Let_def)
next
  case (Cons x a)
  then show ?case by (simp add: Let_def)
qed

lemma node_records_Branch:
  "set (node_records (Branch n ks)) = insert n (\<Union>k \<in> set ks. set (node_records k))"
  by (auto simp: node_records_def)

lemma node_records_push:
  "nodes_push t r c = Some t1 \<Longrightarrow>
     set (node_records t1) \<subseteq> set (node_records t) \<union> set (node_records c)"
proof (induction t r c arbitrary: t1 rule: nodes_push.induct)
  case (1 n ks c)
  then show ?case by (auto simp: node_records_Branch)
next
  case (4 n ks i r c)
  from "4.prems" obtain k where i: "i < length ks" and k: "nodes_push (ks ! i) r c = Some k"
    and t1: "t1 = Branch n (ks[i := k])"
    by (auto split: if_splits option.splits)
  from "4.IH"[OF i k] have ih:
    "set (node_records k) \<subseteq> set (node_records (ks ! i)) \<union> set (node_records c)" .
  show ?case
  proof
    fix x assume "x \<in> set (node_records t1)"
    with t1 have "x = n \<or> (\<exists>j \<in> set (ks[i := k]). x \<in> set (node_records j))"
      by (auto simp: node_records_Branch)
    then show "x \<in> set (node_records (Branch n ks)) \<union> set (node_records c)"
    proof
      assume "x = n"
      then show ?thesis by (simp add: node_records_Branch)
    next
      assume "\<exists>j \<in> set (ks[i := k]). x \<in> set (node_records j)"
      then obtain j where j: "j \<in> set (ks[i := k])" and x: "x \<in> set (node_records j)" ..
      from j set_update_subset_insert[of ks i k] have "j = k \<or> j \<in> set ks" by auto
      then show ?thesis
      proof
        assume "j = k"
        with x ih have "x \<in> set (node_records (ks ! i)) \<or> x \<in> set (node_records c)" by auto
        with i show ?thesis by (auto simp: node_records_Branch)
      next
        assume "j \<in> set ks"
        with x show ?thesis by (auto simp: node_records_Branch)
      qed
    qed
  qed
qed auto

lemma position_ok_mono: "position_ok c n \<Longrightarrow> c \<le> d \<Longrightarrow> position_ok d n"
  by (auto simp: position_ok_def split: option.splits)

lemma pos_inv_mono:
  "pos_inv p \<Longrightarrow> ast q = ast p \<Longrightarrow> column p \<le> column q \<Longrightarrow> pos_inv q"
  by (auto simp: pos_inv_def list_all_iff intro: position_ok_mono)

lemma match_column:
  "match regex p = (r, q) \<Longrightarrow> column p \<le> column q \<and> ast q = ast p"
  by (auto simp: match_def updatePosition_def consume_def split: option.splits)

lemma made_at_ok: "made_at c d n \<Longrightarrow> c \<le> d \<Longrightarrow> position_ok d n"
  by (simp add: made_at_def position_ok_def)

text \<open>What a handler does to the tree: nothing, or one push of nodes made on the spot.\<close>

lemma push_child_records:
  assumes "push_child r c q = Inr p1"
  shows "set (node_records (ast p1)) \<subseteq> set (node_records (ast q)) \<union> set (node_records c)
         \<and> column p1 = column q"
  using assms node_records_push[of "ast q" r c "ast p1"]
  by (auto simp: push_child_def split: option.splits)

lemma made_at_pos:
  "column q2 = column q \<Longrightarrow> made_at (column p) (column q) ((pos (position_start p) q2 n)\<lparr>parent := x\<rparr>)"
  "made_at (column p) (column q) (pos (position_start p) q n)"
  by (simp_all add: made_at_def pos_def position_start_def)

lemma push_child_made:
  assumes "push_child r c q = Inr p1" and "ast q = ast p" and "column p \<le> column q"
    and "\<forall>n \<in> set (node_records c). made_at (column p) (column q) n"
  shows "column p \<le> column p1 \<and>
    (\<forall>n \<in> set (node_records (ast p1)) - set (node_records (ast p)). made_at (column p) (column p1) n)"
  using push_child_records[OF assms(1)] assms(2,3,4) by auto

lemma capture_fn_records:
  assumes "capture_fn t regex p = Inr p1"
  shows "column p \<le> column p1 \<and>
    (\<forall>n \<in> set (node_records (ast p1)) - set (node_records (ast p)). made_at (column p) (column p1) n)"
proof (cases "match regex p")
  case (Pair r q)
  from match_column[OF Pair] have cq: "column p \<le> column q" "ast q = ast p" by auto
  show ?thesis
  proof (cases r)
    case None
    with assms Pair cq show ?thesis by (simp add: capture_fn_def Let_def)
  next
    case (Some m)
    show ?thesis
    proof (cases "m0 m = []")
      case True
      with assms Pair Some cq show ?thesis by (simp add: capture_fn_def Let_def)
    next
      case False
      let ?n = "(pos (position_start p) q ((new_node t)\<lparr>parsed := Some (parsed_text p),
                   rest := Some (input q), val := Some (m0 m)\<rparr>))\<lparr>parent := Some (prev q)\<rparr>"
      from assms Pair Some False have a: "push_child (prev q) (Leaf ?n) q = Inr p1"
        by (simp add: capture_fn_def Let_def)
      have "\<forall>n \<in> set (node_records (Leaf ?n)). made_at (column p) (column q) n"
        by (simp add: node_records_def made_at_pos)
      with cq show ?thesis using push_child_made[OF a] by blast
    qed
  qed
qed

lemma open_fn_records:
  assumes "open_fn t regex p = Inr p1"
  shows "column p \<le> column p1 \<and>
    (\<forall>n \<in> set (node_records (ast p1)) - set (node_records (ast p)). made_at (column p) (column p1) n)"
proof (cases "match regex p")
  case (Pair r q)
  from match_column[OF Pair] have cq: "column p \<le> column q" "ast q = ast p" by auto
  show ?thesis
  proof (cases r)
    case None
    with assms Pair cq show ?thesis by (simp add: open_fn_def Let_def)
  next
    case (Some m)
    show ?thesis
    proof (cases "m0 m = []")
      case True
      with assms Pair Some cq show ?thesis by (simp add: open_fn_def Let_def)
    next
      case False
      let ?q = "q\<lparr>specialChars := True\<rparr>"
      let ?self = "child_ref (ast ?q) (prev q)"
      let ?opn = "(pos (position_start p) ?q ((new_node (t @ ''.open''))\<lparr>val := Some (m0 m)\<rparr>))\<lparr>parent := Some ?self\<rparr>"
      let ?n = "(pos (position_start p) ?q ((new_node t)\<lparr>prefix := m1 m,
                   parsed := Some (parsed_text p), rest := Some (input ?q)\<rparr>))\<lparr>parent := Some (prev q)\<rparr>"
      from assms Pair Some False obtain p3 where b: "push t ?self ?q = Inr p3"
        and a: "push_child (prev q) (Branch ?n [Leaf ?opn]) p3 = Inr p1"
        by (auto simp: open_fn_def Let_def split: sum.splits)
      from b have e: "ast p3 = ast q" "column p3 = column q"
        by (auto simp: push_def Let_def split: option.splits)
      have "\<forall>n \<in> set (node_records (Branch ?n [Leaf ?opn])). made_at (column p) (column p3) n"
        by (simp add: node_records_def made_at_pos e)
      moreover from e cq have "ast p3 = ast p" "column p \<le> column p3" by simp_all
      ultimately show ?thesis using push_child_made[OF a] by blast
    qed
  qed
qed

lemma close_fn_records:
  assumes "close_fn t regex p = Inr p1"
  shows "column p \<le> column p1 \<and>
    (\<forall>n \<in> set (node_records (ast p1)) - set (node_records (ast p)). made_at (column p) (column p1) n)"
proof (cases "match regex p")
  case (Pair r q)
  from match_column[OF Pair] have cq: "column p \<le> column q" "ast q = ast p" by auto
  show ?thesis
  proof (cases r)
    case None
    with assms Pair cq show ?thesis by (simp add: close_fn_def Let_def)
  next
    case (Some m)
    from assms Pair Some obtain o2 p2 where b: "pop t q = Inr (Some o2, p2)"
      and a: "push_child o2 (Leaf ((pos (position_start p) p2 ((new_node (t @ ''.close''))\<lparr>
                rest := Some (input p2), suffix := m1 m, val := Some (m0 m)\<rparr>))\<lparr>parent := Some o2\<rparr>)) p2
              = Inr p1"
      by (auto simp: close_fn_def Let_def split: sum.splits prod.splits option.splits if_splits)
    from b have e: "ast p2 = ast q" "column p2 = column q"
      by (auto simp: pop_def Let_def split: option.splits)
    have "\<forall>n \<in> set (node_records (Leaf ((pos (position_start p) p2 ((new_node (t @ ''.close''))\<lparr>
                rest := Some (input p2), suffix := m1 m, val := Some (m0 m)\<rparr>))\<lparr>parent := Some o2\<rparr>))).
            made_at (column p) (column p2) n"
      by (simp add: node_records_def made_at_pos e)
    moreover from e cq have "ast p2 = ast p" "column p \<le> column p2" by simp_all
    ultimately show ?thesis using push_child_made[OF a] by blast
  qed
qed

lemma run_handler_records:
  "run_handler h p = Inr p1 \<Longrightarrow> column p \<le> column p1 \<and>
    (\<forall>n \<in> set (node_records (ast p1)) - set (node_records (ast p)). made_at (column p) (column p1) n)"
  by (cases h) (simp_all add: capture_fn_records open_fn_records close_fn_records)

lemma records_pos_inv:
  assumes "pos_inv p" and "column p \<le> column p1"
    and "\<forall>n \<in> set (node_records (ast p1)) - set (node_records (ast p)). made_at (column p) (column p1) n"
  shows "pos_inv p1"
  unfolding pos_inv_def list_all_iff
proof
  fix n assume n: "n \<in> set (node_records (ast p1))"
  show "position_ok (column p1) n"
  proof (cases "n \<in> set (node_records (ast p))")
    case True
    with assms(1) have "position_ok (column p) n" by (simp add: pos_inv_def list_all_iff)
    then show ?thesis using assms(2) by (rule position_ok_mono)
  next
    case False
    with n assms(3) have "made_at (column p) (column p1) n" by simp
    then show ?thesis using assms(2) by (rule made_at_ok)
  qed
qed

lemma run_handler_pos_inv: "run_handler h p = Inr p1 \<Longrightarrow> pos_inv p \<Longrightarrow> pos_inv p1"
  using run_handler_records[of h p p1] records_pos_inv[of p p1] by blast

lemma next_from_pos_inv: "next_from ts p = Inr p1 \<Longrightarrow> pos_inv p \<Longrightarrow> pos_inv p1"
proof (induction ts arbitrary: p)
  case Nil
  then show ?case by simp
next
  case (Cons t ts)
  from Cons.prems obtain h q where "run_handler h p = Inr q" and "next_from ts q = Inr p1"
    by (auto split: option.splits sum.splits)
  with Cons.IH Cons.prems(2) show ?case
    using run_handler_pos_inv by blast
qed

lemma parse_loop_pos_inv:
  "parse_loop p = Inr p1 \<Longrightarrow> pos_inv p \<Longrightarrow> pos_inv p1"
proof (induction p rule: parse_loop.induct)
  case (1 p)
  show ?case
  proof (cases "input p = []")
    case True
    with "1.prems" show ?thesis
      by (simp add: parse_loop.simps)
  next
    case False
    with "1.prems" obtain q where q: "next_pass p = Inr q"
      and c: "\<not> (input q \<noteq> [] \<and> input p = input q)" and l: "parse_loop q = Inr p1"
      by (subst (asm) parse_loop.simps) (auto split: sum.splits if_splits)
    from q "1.prems"(2) have "pos_inv q"
      unfolding next_pass_def by (rule next_from_pos_inv)
    with "1.IH"[OF False q c l] show ?thesis by simp
  qed
qed

lemma eos_pos_inv:
  assumes "eos p = Inr p1" and "pos_inv p"
  shows "pos_inv p1"
proof (cases "input p = []")
  case True
  with assms(1) have a: "push_child (prev p) (Leaf (eos_node p)) p = Inr p1"
    by (simp add: eos_def Let_def eos_node_def)
  have "\<forall>n \<in> set (node_records (Leaf (eos_node p))). made_at (column p) (column p) n"
    by (simp add: node_records_def eos_node_def made_at_pos)
  with push_child_made[OF a] have "column p \<le> column p1"
    "\<forall>n \<in> set (node_records (ast p1)) - set (node_records (ast p)). made_at (column p) (column p1) n"
    by auto
  with assms(2) show ?thesis by (rule records_pos_inv)
next
  case False
  with assms show ?thesis by (simp add: eos_def Let_def)
qed

lemma parse_pos_inv:
  assumes "pos_inv p0" and "parse inp p0 = Inr p1"
  shows "pos_inv p1"
proof -
  let ?q = "p0\<lparr>orig := Some inp, input := inp\<rparr>"
  from assms(2) obtain p where p: "parse_loop ?q = Inr p" and e: "eos p = Inr p1"
    by (auto simp: parse_def Let_def error_def split: sum.splits if_splits)
  from assms(1) have "pos_inv ?q" by (simp add: pos_inv_def)
  with p have "pos_inv p" by (rule parse_loop_pos_inv)
  with e show ?thesis by (rule eos_pos_inv)
qed

text \<open>The column of the extglob parser counts the characters taken.\<close>

lemma match_cursor:
  "match regex p = (r, q) \<Longrightarrow> column q + length (parsed_text p) = column p + length (parsed_text q)"
  by (auto simp: match_def updatePosition_def consume_def split: option.splits)

lemma push_child_cursor:
  "push_child r c p = Inr p1 \<Longrightarrow> column p1 = column p \<and> parsed_text p1 = parsed_text p"
  by (auto simp: push_child_def split: option.splits)

lemma push_cursor: "push t r p = Inr p1 \<Longrightarrow> column p1 = column p \<and> parsed_text p1 = parsed_text p"
  by (auto simp: push_def Let_def split: option.splits)

lemma pop_cursor: "pop t p = Inr (r, p1) \<Longrightarrow> column p1 = column p \<and> parsed_text p1 = parsed_text p"
  by (auto simp: pop_def Let_def split: option.splits)

lemma run_handler_cursor:
  assumes "run_handler h p = Inr p1"
  shows "column p1 + length (parsed_text p) = column p + length (parsed_text p1)"
proof (cases h)
  case (Capture t regex)
  obtain r q where m: "match regex p = (r, q)" by (cases "match regex p")
  from assms Capture m have "p1 = q \<or> (\<exists>pr c. push_child pr c q = Inr p1)"
    by (auto simp: capture_fn_def Let_def split: option.splits if_splits)
  with match_cursor[OF m] show ?thesis by (auto dest: push_child_cursor)
next
  case (PairOpen t regex)
  obtain r q where m: "match regex p = (r, q)" by (cases "match regex p")
  from assms PairOpen m have
    "p1 = q \<or> (\<exists>pr c s p3. push t s (q\<lparr>specialChars := True\<rparr>) = Inr p3
        \<and> push_child pr c p3 = Inr p1)"
    by (auto simp: open_fn_def Let_def split: option.splits if_splits sum.splits)
  with match_cursor[OF m] show ?thesis by (auto dest!: push_child_cursor push_cursor)
next
  case (PairClose t regex)
  obtain r q where m: "match regex p = (r, q)" by (cases "match regex p")
  from assms PairClose m have
    "p1 = q \<or> (\<exists>pr c o2 p2. pop t q = Inr (o2, p2) \<and> push_child pr c p2 = Inr p1)"
    by (auto simp: close_fn_def Let_def split: option.splits if_splits sum.splits prod.splits)
  with match_cursor[OF m] show ?thesis by (auto dest!: push_child_cursor pop_cursor)
qed

lemma next_from_cursor:
  "next_from ts p = Inr p1 \<Longrightarrow> column p1 + length (parsed_text p) = column p + length (parsed_text p1)"
proof (induction ts arbitrary: p)
  case (Cons t ts)
  from Cons.prems obtain h q where "run_handler h p = Inr q" and r: "next_from ts q = Inr p1"
    by (auto split: option.splits sum.splits)
  from run_handler_cursor[OF this(1)] Cons.IH[OF r] show ?case by simp
qed simp

lemma parse_loop_cursor:
  "parse_loop p = Inr p1 \<Longrightarrow> column p1 + length (parsed_text p) = column p + length (parsed_text p1)"
proof (induction p rule: parse_loop.induct)
  case (1 p)
  show ?case
  proof (cases "input p = []")
    case True
    with "1.prems" show ?thesis by (simp add: parse_loop.simps)
  next
    case False
    with "1.prems" obtain q where q: "next_pass p = Inr q"
      and c: "\<not> (input q \<noteq> [] \<and> input p = input q)" and l: "parse_loop q = Inr p1"
      by (subst (asm) parse_loop.simps) (auto split: sum.splits if_splits)
    from q have "column q + length (parsed_text p) = column p + length (parsed_text q)"
      unfolding next_pass_def by (rule next_from_cursor)
    with "1.IH"[OF False q c l] show ?thesis by simp
  qed
qed

lemma parse_cursor:
  assumes "parse inp p0 = Inr p1"
  shows "column p1 + length (parsed_text p0) = column p0 + length (parsed_text p1)"
proof -
  let ?q = "p0\<lparr>orig := Some inp, input := inp\<rparr>"
  from assms obtain p where p: "parse_loop ?q = Inr p" and e: "eos p = Inr p1"
    by (auto simp: parse_def Let_def error_def split: sum.splits if_splits)
  from e have "column p1 = column p \<and> parsed_text p1 = parsed_text p"
    by (auto simp: eos_def Let_def dest: push_child_cursor split: if_splits)
  with parse_loop_cursor[OF p] show ?thesis by simp
qed

lemma consecutive_snoc:
  "consecutive (xs @ [x]) = (consecutive xs \<and> (\<forall>a \<in> set xs. snd (snd a) \<le> fst (snd x)))"
  by (auto simp: consecutive_def sorted_wrt_append)

lemma leaf_spans_made:
  "made_at c d n \<Longrightarrow> leaf_spans (Leaf n) = [(type n, int c, int d)]"
  by (simp add: made_at_def)

text \<open>Under each effect the leaves stay consecutive and the containers well placed.\<close>

lemma spans_step:
  assumes n: "nested p ks" and i: "spans_inv p" and e: "effected p q e"
    and c: "column p \<le> column q"
  shows "spans_inv q"
proof -
  from i have co: "consecutive (leaf_spans (ast p))"
    and en: "list_all (\<lambda>x. fst (snd x) \<le> snd (snd x) \<and> snd (snd x) \<le> int (column p))
         (leaf_spans (ast p))"
    and wp: "list_all well_placed (children (ast p))" by (simp_all add: spans_inv_def)
  from en c have en': "list_all (\<lambda>x. fst (snd x) \<le> snd (snd x) \<and> snd (snd x) \<le> int (column q))
         (leaf_spans (ast p))"
    by (auto simp: list_all_iff)
  have push: "spans_inv q"
    if sp: "rspine (ast p) r" and t1: "nodes_push (ast p) r k = Some (ast q)"
      and ls: "leaf_spans k = [(ty, int (column p), int (column q))]" and wk: "well_placed k"
    for r k ty
  proof -
    from nodes_push_leaf_spans[OF sp t1] ls
    have l: "leaf_spans (ast q) = leaf_spans (ast p) @ [(ty, int (column p), int (column q))]"
      by simp
    from en have "\<forall>a \<in> set (leaf_spans (ast p)). snd (snd a) \<le> int (column p)"
      by (auto simp: list_all_iff)
    with co l have "consecutive (leaf_spans (ast q))" by (simp add: consecutive_snoc)
    moreover from en' c l have "list_all (\<lambda>x. fst (snd x) \<le> snd (snd x)
        \<and> snd (snd x) \<le> int (column q)) (leaf_spans (ast q))" by simp
    moreover from t1 wp wk have "list_all well_placed (children (ast q))"
      by (rule nodes_push_root_well_placed)
    ultimately show ?thesis by (simp add: spans_inv_def)
  qed
  show ?thesis
  proof (cases e)
    case Skip
    with e co en' wp show ?thesis by (simp add: spans_inv_def)
  next
    case (Token nd)
    with e have t1: "nodes_push (ast p) (prev p) (Leaf nd) = Some (ast q)"
      and ma: "made_at (column p) (column q) nd" by auto
    from ma have "well_placed (Leaf nd)" by (simp add: made_at_def)
    with push[OF nested_prev(1)[OF n] t1 leaf_spans_made[OF ma]] show ?thesis by simp
  next
    case (Opened nd opn)
    with e have t1: "nodes_push (ast p) (prev p) (Branch nd [Leaf opn]) = Some (ast q)"
      and ma: "made_at (column p) (column q) nd" "made_at (column p) (column q) opn" by auto
    from ma have "well_placed (Branch nd [Leaf opn])" by (simp add: made_at_def)
    moreover from ma have "leaf_spans (Branch nd [Leaf opn]) = [(type opn, int (column p), int (column q))]"
      by (simp add: made_at_def)
    ultimately show ?thesis using push[OF nested_prev(1)[OF n] t1] by simp
  next
    case (Closed nd)
    with e have ne: "stack p \<noteq> []"
      and t1: "nodes_push (ast p) (last (stack p)) (Leaf nd) = Some (ast q)"
      and ma: "made_at (column p) (column q) nd" by auto
    from ne nested_prev(1)[OF n] have sp: "rspine (ast p) (last (stack p))"
      by (simp add: prev_def)
    from ma have "well_placed (Leaf nd)" by (simp add: made_at_def)
    with push[OF sp t1 leaf_spans_made[OF ma]] show ?thesis by simp
  qed
qed

lemma fresh_spans:
  assumes "fresh p"
  shows "spans_inv (p\<lparr>orig := Some inp, input := inp\<rparr>)"
  using assms by (simp add: fresh_def spans_inv_def consecutive_def bos_def new_node_def)

lemma parse_spans:
  assumes f: "fresh P" and k: "kinds_known P" and s: "scanned P inp = Some (ks, w, tx)"
    and e: "ks = [] \<or> \<not> strict (options P)"
  shows "\<exists>q. parse inp P = Inr q \<and> consecutive (leaf_spans (ast q))
     \<and> list_all (\<lambda>x. fst (snd x) \<le> snd (snd x)) (leaf_spans (ast q))
     \<and> list_all well_placed (children (ast q))
     \<and> last (leaf_spans (ast q)) = (''eos'', int (column q), int (column q))
     \<and> column q = 1 + length tx"
proof -
  let ?p = "P\<lparr>orig := Some inp, input := inp\<rparr>"
  let ?H = "UNIV :: handler set"
  have tb: "\<forall>t \<in> set (types ?p). \<forall>h. parsers ?p t = Some h \<longrightarrow> h \<in> ?H \<and> kind_known h"
    using k by (auto simp: kinds_known_def list_all_iff split: option.splits)
  from s have sc: "scan_loop (parsers ?p) (types ?p) ([], inp, []) = Some (ks, w, tx)"
    by (simp add: scanned_def)
  have "\<exists>q. parse_loop ?p = Inr q \<and> tracks q (ks, w, tx) \<and> spans_inv q \<and> same_config ?p q"
  proof (rule loop_sim[where H = ?H and K = spans_inv, OF _ fresh_tracks[OF f] fresh_spans[OF f] tb sc])
    fix h p q e ks
    assume "nested p ks" "spans_inv p" "effected p q e" "column p \<le> column q"
    then show "spans_inv q" by (rule spans_step)
  qed
  then obtain q where l: "parse_loop ?p = Inr q" and t: "tracks q (ks, w, tx)"
    and sq: "spans_inv q" and c: "same_config ?p q" by blast
  from t have n: "nested q ks" and i: "input q = w" and pt: "parsed_text q = tx"
    by (simp_all add: tracks_def)
  from s have "w = []" unfolding scanned_def by (rule scan_loop_end)
  with i have i0: "input q = []" by simp
  from f c have a: "append_text q = None" by (simp add: fresh_def same_config_def)
  from n have "length (stack q) = length ks" by (auto simp: nested_def)
  with e have "stack q = [] \<or> \<not> strict (options P)" by auto
  from parse_after_loop[OF l c this] have p: "parse inp P = eos q" .
  from eos_step[OF n i0 a] obtain q1 nd where q1: "eos q = Inr q1"
    and qq: "q1 = q\<lparr>ast := ast q1\<rparr>" and ef: "effected q q1 (Token nd)"
    and ty: "type nd = ''eos''" by blast
  from arg_cong[OF qq, of column] have cq: "column q1 = column q" by simp
  from arg_cong[OF qq, of parsed_text] have pq: "parsed_text q1 = parsed_text q" by simp
  from cq have "column q \<le> column q1" by simp
  from spans_step[OF n sq ef this] have s1: "spans_inv q1" .
  from ef have t1: "nodes_push (ast q) (prev q) (Leaf nd) = Some (ast q1)"
    and ma: "made_at (column q) (column q1) nd" by auto
  from nodes_push_leaf_spans[OF nested_prev(1)[OF n] t1] leaf_spans_made[OF ma] ty cq
  have la: "last (leaf_spans (ast q1)) = (''eos'', int (column q1), int (column q1))" by simp
  from p q1 have pp: "parse inp P = Inr q1" by simp
  from parse_cursor[OF pp] f pq pt have co: "column q1 = 1 + length tx"
    by (simp add: fresh_def)
  from s1 have "consecutive (leaf_spans (ast q1))"
    "list_all (\<lambda>x. fst (snd x) \<le> snd (snd x)) (leaf_spans (ast q1))"
    "list_all well_placed (children (ast q1))"
    by (auto simp: spans_inv_def list_all_iff)
  with pp la co show ?thesis by blast
qed

text \<open>The nodes of the snapdragon parser under middleware of the documented form.\<close>

lemma before_refl: "before a a"
  by (simp add: before_def)

lemma before_trans: "before a b \<Longrightarrow> before b c \<Longrightarrow> before a c"
  by (auto simp: before_def)

lemma lastIndexOf_present: "lastIndexOf s c \<noteq> -1 \<Longrightarrow> c \<in> set s"
  using lastIndexOf_absent by blast

lemma advance_cursor: "before (cursor_sd p) (cursor_sd (advance str p))"
proof (cases "newline \<in> set str")
  case True
  then have "filter (\<lambda>c. c = newline) str \<noteq> []" by (simp add: filter_empty_conv)
  then show ?thesis
    by (simp add: advance_def updatePosition_sd_def Let_def cursor_sd_def before_def)
next
  case False
  then have "filter (\<lambda>c. c = newline) str = []" by (auto simp: filter_empty_conv)
  moreover from False have "lastIndexOf str newline = -1" by (rule lastIndexOf_absent)
  ultimately show ?thesis
    by (simp add: advance_def updatePosition_sd_def Let_def cursor_sd_def before_def)
qed

lemma advance_nodes: "nodes (advance str p) = nodes p"
  by (simp add: advance_def updatePosition_sd_def Let_def)

text \<open>A pass of such middleware: no match and nothing changed, or one node from the cursor to the cursor.\<close>

lemma run_from_rules:
  "\<exists>x p1. run_from (rules_mw rules) i p = Inr (x, p1) \<and>
     (case x of
        None \<Rightarrow> p1 = p
      | Some k \<Rightarrow> nodes p1 = nodes p \<and> before (cursor_sd p) (cursor_sd p1)
          \<and> span_start k = cursor_sd p \<and> span_end k = cursor_sd p1)"
proof (induction rules arbitrary: i)
  case Nil
  show ?case by (simp add: rules_mw_def)
next
  case (Cons x rules)
  obtain t re where x: "x = (t, re)" by (cases x)
  show ?case
  proof (cases "re (input_sd p)")
    case None
    then have "rule_mw t re (input_sd p) i p = Inr (None, p)"
      by (simp add: rule_mw_def match_sd_def Let_def)
    with Cons[of "Suc i"] x show ?thesis by (simp add: rules_mw_def)
  next
    case (Some m)
    let ?p1 = "advance (m0 m) p"
    let ?k = "Leaf (pos_sd (position_start_sd p) ?p1 ((new_node t)\<lparr>val := Some (m0 m)\<rparr>))"
    from Some have "rule_mw t re (input_sd p) i p = Inr (Some ?k, ?p1)"
      by (simp add: rule_mw_def match_sd_def Let_def)
    moreover have "span_start ?k = cursor_sd p" "span_end ?k = cursor_sd ?p1"
      by (simp_all add: span_start_def span_end_def pos_sd_def position_start_sd_def
          place_def cursor_sd_def)
    ultimately show ?thesis
      using x advance_cursor[of p "m0 m"] advance_nodes[of "m0 m" p]
      by (simp add: rules_mw_def)
  qed
qed

lemma ordered_sd_push:
  assumes o: "ordered_sd p" and n: "nodes p1 = nodes p"
    and c: "before (cursor_sd p) (cursor_sd p1)"
    and s: "span_start k = cursor_sd p" and e: "span_end k = cursor_sd p1"
  shows "ordered_sd (p1\<lparr>nodes := nodes p1 @ [k]\<rparr>)"
proof -
  from o have a: "sorted_wrt (\<lambda>a b. before (span_end a) (span_start b)) (nodes p)"
    and b: "\<forall>x \<in> set (nodes p). before (span_start x) (span_end x) \<and> before (span_end x) (cursor_sd p)"
    by (simp_all add: ordered_sd_def list_all_iff)
  from b c have b': "\<forall>x \<in> set (nodes p). before (span_end x) (cursor_sd p1)"
    by (blast intro: before_trans)
  from a b s have "sorted_wrt (\<lambda>a b. before (span_end a) (span_start b)) (nodes p @ [k])"
    by (simp add: sorted_wrt_append)
  moreover from b b' c s e have "\<forall>x \<in> set (nodes p @ [k]).
      before (span_start x) (span_end x) \<and> before (span_end x) (cursor_sd p1)"
    by (auto simp: before_refl)
  ultimately show ?thesis using n
    by (simp add: ordered_sd_def list_all_iff cursor_sd_def)
qed

lemma parse_loop_sd_ordered:
  assumes l: "parse_loop_sd (rules_mw rules) p = Some x" and o: "ordered_sd p"
  shows "\<exists>q. x = Inr q \<and> ordered_sd q"
proof -
  have "rules_mw rules = rules_mw rules \<and> ordered_sd p \<longrightarrow> (\<exists>q. x = Inr q \<and> ordered_sd q)"
  proof (rule parse_loop_sd.raw_induct[where
        P = "\<lambda>fns p x. fns = rules_mw rules \<and> ordered_sd p \<longrightarrow> (\<exists>q. x = Inr q \<and> ordered_sd q)",
        OF _ l])
    fix loop :: "middleware list \<Rightarrow> snapdragon \<Rightarrow> ((exn \<times> snapdragon) + snapdragon) option"
    fix fns p x
    assume IH: "\<And>fns p x. loop fns p = Some x \<Longrightarrow>
        fns = rules_mw rules \<and> ordered_sd p \<longrightarrow> (\<exists>q. x = Inr q \<and> ordered_sd q)"
    assume body: "(if input_sd p = [] then Some (Inr p)
      else case run fns p of Inl e \<Rightarrow> Some (Inl e)
           | Inr (None, p1) \<Rightarrow> Some (Inr p1)
           | Inr (Some n, p1) \<Rightarrow> loop fns (p1\<lparr>nodes := nodes p1 @ [n]\<rparr>)) = Some x"
    show "fns = rules_mw rules \<and> ordered_sd p \<longrightarrow> (\<exists>q. x = Inr q \<and> ordered_sd q)"
    proof
      assume a: "fns = rules_mw rules \<and> ordered_sd p"
      show "\<exists>q. x = Inr q \<and> ordered_sd q"
      proof (cases "input_sd p = []")
        case True
        with body a show ?thesis by auto
      next
        case False
        from run_from_rules[of rules 0 p] a obtain y p1 where r: "run fns p = Inr (y, p1)"
          and c: "case y of None \<Rightarrow> p1 = p
            | Some k \<Rightarrow> nodes p1 = nodes p \<and> before (cursor_sd p) (cursor_sd p1)
                \<and> span_start k = cursor_sd p \<and> span_end k = cursor_sd p1"
          by (auto simp: run_def)
        show ?thesis
        proof (cases y)
          case None
          with False r c body a show ?thesis by auto
        next
          case (Some k)
          with False r body have lp: "loop fns (p1\<lparr>nodes := nodes p1 @ [k]\<rparr>) = Some x" by simp
          from Some c a have "ordered_sd p" "nodes p1 = nodes p"
            "before (cursor_sd p) (cursor_sd p1)" "span_start k = cursor_sd p"
            "span_end k = cursor_sd p1" by simp_all
          then have "ordered_sd (p1\<lparr>nodes := nodes p1 @ [k]\<rparr>)" by (rule ordered_sd_push)
          with IH[OF lp] a show ?thesis by simp
        qed
      qed
    qed
  qed
  with o show ?thesis by simp
qed

lemma parse_sd_ordered:
  assumes "parse_sd (rules_mw rules) (JString s) p = Some x" and "ordered_sd p"
  shows "\<exists>q. x = Inr q \<and> ordered_sd q"
proof -
  let ?p = "p\<lparr>original := original p @ s, input_sd := input_sd p @ s\<rparr>"
  from assms(1) have "parse_loop_sd (rules_mw rules) ?p = Some x" by (simp add: parse_sd_def)
  moreover from assms(2) have "ordered_sd ?p" by (simp add: ordered_sd_def cursor_sd_def)
  ultimately show ?thesis by (rule parse_loop_sd_ordered)
qed

text \<open>
  C7, as amended. \<^verbatim>\<open>updatePosition\<close> of the snapdragon parser adds the number of
  newlines of the consumed text to the line count, and sets the column to one more
  than the number of characters that follow the last newline (to the column plus
  the length when there is no newline). In a parse of the snapdragon parser that
  returns, under middleware of the documented form (\<^verbatim>\<open>position\<close>, \<^verbatim>\<open>match\<close>, node),
  every node starts no later than it ends and no earlier than the node before it
  ends, lines before columns.

  \<^verbatim>\<open>updatePosition\<close> of the extglob parser adds the length to the column and counts
  no lines: the column moves by the number of characters taken, newlines among them.
  The column never decreases; every node a handler makes starts at the column the
  handler found and ends at the column it left, so the container an open makes has
  the position of its open token; and every position starts no later than it ends.
  In the tree \<^verbatim>\<open>parse\<close> returns of an input all of whose closes are properly nested,
  the leaves follow one another in document order, each starting no earlier than the
  one before it ends, the \<^verbatim>\<open>eos\<close> node last, and every container has the position of
  its first child, the open token.
\<close>

theorem position_bookkeeping:
  "lineno (updatePosition_sd str (length str) q)
     = lineno q + int (length (filter (\<lambda>c. c = newline) str))
   \<and> (newline \<notin> set str \<longrightarrow>
        column_sd (updatePosition_sd str (length str) q) = column_sd q + int (length str))
   \<and> (newline \<notin> set b \<longrightarrow>
        column_sd (updatePosition_sd (a @ newline # b) (length (a @ newline # b)) q)
          = 1 + int (length b))
   \<and> column (updatePosition str len p) = column p + len
   \<and> (run_handler h p = Inr p1 \<longrightarrow>
        column p \<le> column p1 \<and>
        (\<forall>n \<in> set (node_records (ast p1)) - set (node_records (ast p)).
           position n = Some \<lparr>pos_start = \<lparr>line = None, col = int (column p)\<rparr>,
                               pos_end = \<lparr>line = None, col = int (column p1)\<rparr>\<rparr>))
   \<and> (pos_inv p \<and> run_handler h p = Inr p1 \<longrightarrow> pos_inv p1)
   \<and> (pos_inv p0 \<and> parse inp p0 = Inr p2 \<longrightarrow> pos_inv p2)
   \<and> (run_handler h p = Inr p1 \<longrightarrow>
        column p1 + length (parsed_text p) = column p + length (parsed_text p1))
   \<and> (fresh P \<and> kinds_known P \<and> scanned P inp = Some (ks, w, tx)
        \<and> (ks = [] \<or> \<not> strict (options P)) \<longrightarrow>
        (\<exists>q. parse inp P = Inr q \<and> consecutive (leaf_spans (ast q))
           \<and> list_all (\<lambda>x. fst (snd x) \<le> snd (snd x)) (leaf_spans (ast q))
           \<and> list_all well_placed (children (ast q))
           \<and> last (leaf_spans (ast q)) = (''eos'', int (column q), int (column q))
           \<and> column q = 1 + length tx))
   \<and> (ordered_sd p5 \<and> parse_sd (rules_mw rules) (JString s) p5 = Some x \<longrightarrow>
        (\<exists>q. x = Inr q \<and> ordered_sd q))"
proof (intro conjI impI)
  show "lineno (updatePosition_sd str (length str) q)
     = lineno q + int (length (filter (\<lambda>c. c = newline) str))"
    by (simp add: updatePosition_sd_def Let_def)
next
  assume "newline \<notin> set str"
  then show "column_sd (updatePosition_sd str (length str) q) = column_sd q + int (length str)"
    by (simp add: updatePosition_sd_def Let_def lastIndexOf_absent)
next
  assume "newline \<notin> set b"
  then have "lastIndexOf (a @ newline # b) newline = int (length a)"
    by (rule lastIndexOf_last)
  then show "column_sd (updatePosition_sd (a @ newline # b) (length (a @ newline # b)) q)
          = 1 + int (length b)"
    by (simp add: updatePosition_sd_def Let_def)
next
  show "column (updatePosition str len p) = column p + len"
    by (simp add: updatePosition_def consume_def)
next
  assume "run_handler h p = Inr p1"
  from run_handler_records[OF this] show "column p \<le> column p1" by simp
next
  assume "run_handler h p = Inr p1"
  from run_handler_records[OF this]
  show "\<forall>n \<in> set (node_records (ast p1)) - set (node_records (ast p)).
           position n = Some \<lparr>pos_start = \<lparr>line = None, col = int (column p)\<rparr>,
                               pos_end = \<lparr>line = None, col = int (column p1)\<rparr>\<rparr>"
    by (simp add: made_at_def)
next
  assume "pos_inv p \<and> run_handler h p = Inr p1"
  then show "pos_inv p1" using run_handler_pos_inv by blast
next
  assume "pos_inv p0 \<and> parse inp p0 = Inr p2"
  then show "pos_inv p2" using parse_pos_inv by blast
next
  assume "run_handler h p = Inr p1"
  then show "column p1 + length (parsed_text p) = column p + length (parsed_text p1)"
    by (rule run_handler_cursor)
next
  assume a: "fresh P \<and> kinds_known P \<and> scanned P inp = Some (ks, w, tx)
        \<and> (ks = [] \<or> \<not> strict (options P))"
  then show "\<exists>q. parse inp P = Inr q \<and> consecutive (leaf_spans (ast q))
           \<and> list_all (\<lambda>x. fst (snd x) \<le> snd (snd x)) (leaf_spans (ast q))
           \<and> list_all well_placed (children (ast q))
           \<and> last (leaf_spans (ast q)) = (''eos'', int (column q), int (column q))
           \<and> column q = 1 + length tx"
    using parse_spans by blast
next
  assume "ordered_sd p5 \<and> parse_sd (rules_mw rules) (JString s) p5 = Some x"
  then show "\<exists>q. x = Inr q \<and> ordered_sd q" using parse_sd_ordered by blast
qed

text \<open>
  A text of two lines, and two dots, on the snapdragon parser; an open parenthesis,
  and the input \<^verbatim>\<open>([])\<close>, on the extglob parser.
\<close>

lemma ordered_sd_new: "ordered_sd (Parser_sd opts)"
  by (simp add: ordered_sd_def Parser_sd_def)

theorem position_bookkeeping_witness:
  "lineno (updatePosition_sd [CHR ''a'', newline, CHR ''b'', CHR ''c''] 4 (Parser_sd opts0)) = 2
   \<and> newline \<notin> set ''bc''
   \<and> column_sd (updatePosition_sd ''bc'' 2 (Parser_sd opts0)) = 3
   \<and> column_sd (updatePosition_sd [CHR ''a'', newline, CHR ''b'', CHR ''c''] 4 (Parser_sd opts0)) = 3
   \<and> column (updatePosition ''('' 1 (paren_parser extglob_opts)) = 2
   \<and> pos_inv ((paren_parser extglob_opts)\<lparr>input := ''(''\<rparr>)
   \<and> (\<exists>p1. run_handler (PairOpen ''paren'' (lit CHR ''('')) ((paren_parser extglob_opts)\<lparr>input := ''(''\<rparr>) = Inr p1
         \<and> column p1 = 2 \<and> pos_inv p1
         \<and> length (node_records (ast p1)) = 4
         \<and> list_all (\<lambda>n. n \<in> set (node_records (ast ((paren_parser extglob_opts)\<lparr>input := ''(''\<rparr>))) \<or>
               position n = Some \<lparr>pos_start = \<lparr>line = None, col = 1\<rparr>,
                                   pos_end = \<lparr>line = None, col = 2\<rparr>\<rparr>) (node_records (ast p1))
         \<and> length (parsed_text p1) = 1)
   \<and> (\<exists>p2. parse ''()'' (paren_parser extglob_opts) = Inr p2 \<and> pos_inv p2)
   \<and> fresh (nested_parser extglob_opts) \<and> kinds_known (nested_parser extglob_opts)
   \<and> scanned (nested_parser extglob_opts) ''([])'' = Some ([], [], ''([])'')
   \<and> (\<exists>q. parse ''([])'' (nested_parser extglob_opts) = Inr q
         \<and> consecutive (leaf_spans (ast q))
         \<and> list_all (\<lambda>x. fst (snd x) \<le> snd (snd x)) (leaf_spans (ast q))
         \<and> list_all well_placed (children (ast q))
         \<and> last (leaf_spans (ast q)) = (''eos'', 5, 5) \<and> column q = 5)
   \<and> ordered_sd (Parser_sd opts0)
   \<and> (\<exists>q. parse_sd (rules_mw [(''dot'', lit CHR ''.'')]) (JString ''..'') (Parser_sd opts0)
             = Some (Inr q)
         \<and> ordered_sd q \<and> length (nodes q) = 2)"
proof -
  let ?q = "Parser_sd opts0"
  let ?P = "paren_parser extglob_opts"
  let ?N = "nested_parser extglob_opts"
  let ?p = "?P\<lparr>input := ''(''\<rparr>"
  let ?h = "PairOpen ''paren'' (lit CHR ''('')"
  let ?fns = "rules_mw [(''dot'', lit CHR ''.'')]"
  have nb: "newline \<notin> set ''bc''" by (simp add: newline_def)
  have i1: "pos_inv ?P" by code_simp
  then have i2: "pos_inv ?p" by (simp add: pos_inv_def)
  have "\<not> isl (run_handler ?h ?p)" by code_simp
  then obtain p1 where p1: "run_handler ?h ?p = Inr p1" by (cases "run_handler ?h ?p") auto
  have "case run_handler ?h ?p of Inr p1 \<Rightarrow> column p1 = 2 \<and> length (node_records (ast p1)) = 4
        | Inl e \<Rightarrow> False" by code_simp
  with p1 have c1: "column p1 = 2" "length (node_records (ast p1)) = 4" by simp_all
  have "\<not> isl (parse ''()'' ?P)" by code_simp
  then obtain p2 where p2: "parse ''()'' ?P = Inr p2" by (cases "parse ''()'' ?P") auto
  have cp: "column ?p = 1" "lineno ?q = 1" "column_sd ?q = 1" "parsed_text ?p = []"
    by (simp_all add: paren_parser_def pair_def set_parser_def Parser_def Parser_sd_def)
  have sc: "scanned ?N ''([])'' = Some ([], [], ''([])'')" by code_simp
  have "case parse_sd ?fns (JString ''..'') ?q of Some (Inr q) \<Rightarrow> length (nodes q) = 2
        | _ \<Rightarrow> False" by code_simp
  then obtain x q5 where x: "parse_sd ?fns (JString ''..'') ?q = Some x"
    and xq: "x = Inr q5 \<longrightarrow> length (nodes q5) = 2" and xr: "\<exists>q. x = Inr q \<and> length (nodes q) = 2"
    by (auto split: option.splits sum.splits)
  note T = position_bookkeeping[where str = "''bc''" and q = ?q and b = "''bc''" and a = "''a''"
      and len = 1 and p = ?p and h = ?h and ?p1.0 = p1 and ?p0.0 = ?P and inp = "''()''"
      and ?p2.0 = p2]
  note U = position_bookkeeping[where str = "[CHR ''a'', newline, CHR ''b'', CHR ''c'']"
      and q = ?q and b = "''bc''" and a = "''a''"
      and len = 1 and p = ?P]
  note V = position_bookkeeping[where P = ?N and inp = "''([])''" and ks = "[]" and w = "[]"
      and tx = "''([])''" and ?p5.0 = ?q and rules = "[(''dot'', lit CHR ''.'')]"
      and s = "''..''" and x = x]
  note U1 = U[THEN conjunct1]
  note T2 = T[THEN conjunct2, THEN conjunct1]
  note T3 = T[THEN conjunct2, THEN conjunct2, THEN conjunct1]
  note T5 = T[THEN conjunct2, THEN conjunct2, THEN conjunct2, THEN conjunct2, THEN conjunct1]
  note T6 = T[THEN conjunct2, THEN conjunct2, THEN conjunct2, THEN conjunct2, THEN conjunct2,
      THEN conjunct1]
  note T7 = T[THEN conjunct2, THEN conjunct2, THEN conjunct2, THEN conjunct2, THEN conjunct2,
      THEN conjunct2, THEN conjunct1]
  note T8 = T[THEN conjunct2, THEN conjunct2, THEN conjunct2, THEN conjunct2, THEN conjunct2,
      THEN conjunct2, THEN conjunct2, THEN conjunct1]
  note V9 = V[THEN conjunct2, THEN conjunct2, THEN conjunct2, THEN conjunct2, THEN conjunct2,
      THEN conjunct2, THEN conjunct2, THEN conjunct2, THEN conjunct1]
  note V10 = V[THEN conjunct2, THEN conjunct2, THEN conjunct2, THEN conjunct2, THEN conjunct2,
      THEN conjunct2, THEN conjunct2, THEN conjunct2, THEN conjunct2]
  from U1 have l: "lineno (updatePosition_sd [CHR ''a'', newline, CHR ''b'', CHR ''c''] 4 ?q) = 2"
    by (simp add: cp newline_def eval_nat_numeral)
  from T2 nb have a: "column_sd (updatePosition_sd ''bc'' 2 ?q) = 3"
    by (simp add: cp eval_nat_numeral)
  from T3 nb have b: "column_sd (updatePosition_sd [CHR ''a'', newline, CHR ''b'', CHR ''c''] 4 ?q) = 3"
    by (simp add: eval_nat_numeral)
  have c: "column (updatePosition ''('' 1 ?P) = 2"
    by (simp add: updatePosition_def consume_def paren_parser_def pair_def set_parser_def Parser_def)
  from T6 p1 i2 have d: "pos_inv p1" by blast
  from T5 p1 have e: "\<forall>n \<in> set (node_records (ast p1)) - set (node_records (ast ?p)).
           position n = Some \<lparr>pos_start = \<lparr>line = None, col = int (column ?p)\<rparr>,
                               pos_end = \<lparr>line = None, col = int (column p1)\<rparr>\<rparr>" by blast
  then have e': "list_all (\<lambda>n. n \<in> set (node_records (ast ?p)) \<or>
               position n = Some \<lparr>pos_start = \<lparr>line = None, col = 1\<rparr>,
                                   pos_end = \<lparr>line = None, col = 2\<rparr>\<rparr>) (node_records (ast p1))"
    unfolding list_all_iff cp c1 by auto
  from T7 i1 p2 have f: "pos_inv p2" by blast
  from T8 p1 cp c1 have g: "length (parsed_text p1) = 1" by simp
  have ns: "\<not> strict (options ?N)"
    by (simp add: nested_parser_def paren_parser_def pair_def set_parser_def Parser_def
        extglob_opts_def)
  from V9 fresh_nested_parser(1)[of extglob_opts] kinds_known_nested_parser[of extglob_opts] sc
  obtain q9 where q9: "parse ''([])'' ?N = Inr q9" "consecutive (leaf_spans (ast q9))"
    "list_all (\<lambda>x. fst (snd x) \<le> snd (snd x)) (leaf_spans (ast q9))"
    "list_all well_placed (children (ast q9))"
    "last (leaf_spans (ast q9)) = (''eos'', int (column q9), int (column q9))"
    "column q9 = 1 + length ''([])''" by blast
  then have q9': "last (leaf_spans (ast q9)) = (''eos'', 5, 5)" "column q9 = 5" by simp_all
  from V10 ordered_sd_new[of opts0] x obtain q10 where q10: "x = Inr q10" "ordered_sd q10"
    by blast
  with xr have q10': "length (nodes q10) = 2" by auto
  have part1: "lineno (updatePosition_sd [CHR ''a'', newline, CHR ''b'', CHR ''c''] 4 ?q) = 2
   \<and> newline \<notin> set ''bc''
   \<and> column_sd (updatePosition_sd ''bc'' 2 ?q) = 3
   \<and> column_sd (updatePosition_sd [CHR ''a'', newline, CHR ''b'', CHR ''c''] 4 ?q) = 3
   \<and> column (updatePosition ''('' 1 ?P) = 2
   \<and> pos_inv ?p
   \<and> (\<exists>p1. run_handler ?h ?p = Inr p1
         \<and> column p1 = 2 \<and> pos_inv p1
         \<and> length (node_records (ast p1)) = 4
         \<and> list_all (\<lambda>n. n \<in> set (node_records (ast ?p)) \<or>
               position n = Some \<lparr>pos_start = \<lparr>line = None, col = 1\<rparr>,
                                   pos_end = \<lparr>line = None, col = 2\<rparr>\<rparr>) (node_records (ast p1))
         \<and> length (parsed_text p1) = 1)
   \<and> (\<exists>p2. parse ''()'' ?P = Inr p2 \<and> pos_inv p2)"
    using l nb a b c i2 p1 c1 d e' p2 f g by blast
  have part2: "fresh ?N \<and> kinds_known ?N
   \<and> scanned ?N ''([])'' = Some ([], [], ''([])'')
   \<and> (\<exists>q. parse ''([])'' ?N = Inr q
         \<and> consecutive (leaf_spans (ast q))
         \<and> list_all (\<lambda>x. fst (snd x) \<le> snd (snd x)) (leaf_spans (ast q))
         \<and> list_all well_placed (children (ast q))
         \<and> last (leaf_spans (ast q)) = (''eos'', 5, 5) \<and> column q = 5)
   \<and> ordered_sd ?q
   \<and> (\<exists>q. parse_sd ?fns (JString ''..'') ?q = Some (Inr q)
         \<and> ordered_sd q \<and> length (nodes q) = 2)"
    using fresh_nested_parser(1)[of extglob_opts] kinds_known_nested_parser[of extglob_opts]
      sc q9(1-4) q9' ordered_sd_new[of opts0] x q10 q10' by blast
  from part1 part2 show ?thesis by blast
qed

text \<open>
  C7 as stated fails on the extglob parser. A newline moves the column from 1 to 2
  and no line is counted. In the tree \<^verbatim>\<open>parse('()')\<close> returns, the parenthesis and
  its open token both run from column 1 to column 2, so the open token starts before
  the node before it in document order ends. And \<^verbatim>\<open>parse('([)]')\<close> returns, even with
  \<^verbatim>\<open>strict\<close>, a tree in which the close of the bracket (columns 4 to 5) stands before
  the close of the parenthesis (columns 3 to 4).
\<close>

theorem position_order_counterexample:
  "column (updatePosition [newline] 1 (Parser extglob_opts)) = 2
   \<and> (case parse ''()'' (paren_parser extglob_opts) of
        Inl e \<Rightarrow> False
      | Inr p \<Rightarrow>
          node_spans (ast p) =
            [(''root'', None), (''bos'', Some (1, 1)), (''paren'', Some (1, 2)),
             (''paren.open'', Some (1, 2)), (''paren.close'', Some (2, 3)),
             (''eos'', Some (3, 3))])
   \<and> (case parse ''([)]'' (nested_parser (extglob_opts\<lparr>strict := True\<rparr>)) of
        Inl e \<Rightarrow> False
      | Inr p \<Rightarrow>
          leaf_spans (ast p) =
            [(''bos'', 1, 1), (''paren.open'', 1, 2), (''bracket.open'', 2, 3),
             (''bracket.close'', 4, 5), (''paren.close'', 3, 4), (''eos'', 5, 5)])"
  by code_simp

section \<open>The snapdragon parser: the input and the original text\<close>

text \<open>
  C10. \<^verbatim>\<open>parse\<close> of the snapdragon parser, called with a value that is not a string,
  throws the TypeError \<^verbatim>\<open>expected a string\<close>, and the parser it leaves is the parser
  it found: \<^verbatim>\<open>original\<close>, \<^verbatim>\<open>input\<close>, \<^verbatim>\<open>nodes\<close> and every other field are untouched.
\<close>

theorem parse_sd_rejects_non_string:
  "typeof v \<noteq> ''string'' \<Longrightarrow> parse_sd fns v p = Some (Inl (TypeError ''expected a string'', p))"
  by (simp add: parse_sd_def)

text \<open>The number 5 is such a value.\<close>

theorem parse_sd_rejects_non_string_witness:
  "typeof (JNumber 5) \<noteq> ''string'' \<and>
   parse_sd [] (JNumber 5) (Parser_sd \<lparr>opt_source = ''string'', strict = False, silent = False\<rparr>)
     = Some (Inl (TypeError ''expected a string'',
         Parser_sd \<lparr>opt_source = ''string'', strict = False, silent = False\<rparr>))"
  using parse_sd_rejects_non_string[of "JNumber 5" "[]" "Parser_sd \<lparr>opt_source = ''string'', strict = False, silent = False\<rparr>"]
  by simp

lemma error_sd_original:
  "error_sd m p = Inl (e, q) \<Longrightarrow> original q = original p"
  "error_sd m p = Inr q \<Longrightarrow> original q = original p"
  by (auto simp: error_sd_def split: if_splits)

lemma run_from_original:
  assumes "\<forall>fn \<in> set fns. keeps_original fn"
  shows "original (outcome_state (run_from fns i p)) = original p"
  using assms
proof (induction fns arbitrary: i p)
  case Nil
  then show ?case by (simp add: outcome_state_def)
next
  case (Cons fn fns)
  from Cons.prems have k: "original (outcome_state (fn (input_sd p) i p)) = original p"
    by (simp add: keeps_original_def)
  show ?case
  proof (cases "fn (input_sd p) i p")
    case (Inl a)
    obtain e p1 where a: "a = (e, p1)" by (cases a)
    with Inl k have "original p1 = original p" by (simp add: outcome_state_def)
    with Inl a show ?thesis
      by (auto simp: outcome_state_def split: sum.splits exn.splits dest: error_sd_original)
  next
    case (Inr b)
    obtain n p1 where b: "b = (n, p1)" by (cases b)
    with Inr k have o: "original p1 = original p" by (simp add: outcome_state_def)
    show ?thesis
    proof (cases n)
      case None
      with Inr b o Cons.IH[of "Suc i" p1] Cons.prems show ?thesis by simp
    next
      case (Some a)
      with Inr b o show ?thesis by (simp add: outcome_state_def)
    qed
  qed
qed

lemma parse_loop_sd_original:
  assumes k: "\<forall>fn \<in> set fns. keeps_original fn" and l: "parse_loop_sd fns p = Some x"
  shows "original (final_state x) = original p"
proof -
  have "(\<forall>fn \<in> set fns. keeps_original fn) \<longrightarrow> original (final_state x) = original p"
  proof (rule parse_loop_sd.raw_induct[where
        P = "\<lambda>fns p x. (\<forall>fn \<in> set fns. keeps_original fn) \<longrightarrow> original (final_state x) = original p",
        OF _ l])
    fix loop :: "middleware list \<Rightarrow> snapdragon \<Rightarrow> ((exn \<times> snapdragon) + snapdragon) option"
    fix fns p x
    assume IH: "\<And>fns p x. loop fns p = Some x \<Longrightarrow>
        (\<forall>fn \<in> set fns. keeps_original fn) \<longrightarrow> original (final_state x) = original p"
    assume body: "(if input_sd p = [] then Some (Inr p)
      else case run fns p of Inl e \<Rightarrow> Some (Inl e)
           | Inr (None, p1) \<Rightarrow> Some (Inr p1)
           | Inr (Some n, p1) \<Rightarrow> loop fns (p1\<lparr>nodes := nodes p1 @ [n]\<rparr>)) = Some x"
    show "(\<forall>fn \<in> set fns. keeps_original fn) \<longrightarrow> original (final_state x) = original p"
    proof
      assume kk: "\<forall>fn \<in> set fns. keeps_original fn"
      show "original (final_state x) = original p"
      proof (cases "input_sd p = []")
        case True
        with body show ?thesis by (auto simp: final_state_def)
      next
        case False
        have r: "original (outcome_state (run fns p)) = original p"
          unfolding run_def using kk by (rule run_from_original)
        show ?thesis
        proof (cases "run fns p")
          case (Inl a)
          with False body r show ?thesis
            by (auto simp: final_state_def outcome_state_def)
        next
          case (Inr b)
          obtain n p1 where b: "b = (n, p1)" by (cases b)
          with Inr r have o: "original p1 = original p" by (simp add: outcome_state_def)
          show ?thesis
          proof (cases n)
            case None
            with False Inr b o body show ?thesis by (auto simp: final_state_def)
          next
            case (Some a)
            with False Inr b body have "loop fns (p1\<lparr>nodes := nodes p1 @ [a]\<rparr>) = Some x"
              by simp
            from IH[OF this] kk o show ?thesis by simp
          qed
        qed
      qed
    qed
  qed
  with k show ?thesis by blast
qed

text \<open>
  C9, as amended. On the snapdragon parser, whose middleware leave \<^verbatim>\<open>original\<close> alone,
  two calls of \<^verbatim>\<open>parse\<close> that end (by returning or by throwing) leave the first
  input and then the second appended to the original text. The extglob parser
  assigns its \<^verbatim>\<open>orig\<close> instead (see the counterexample below).
\<close>

theorem parse_sd_appends_original:
  assumes "list_all keeps_original fns"
    and "parse_sd fns (JString a) p = Some x"
    and "parse_sd fns (JString b) (final_state x) = Some y"
  shows "original (final_state y) = original p @ a @ b"
proof -
  from assms(2) have "original (final_state x) = original p @ a"
    using parse_loop_sd_original[of fns] assms(1) by (simp add: parse_sd_def list_all_iff)
  moreover from assms(3) have "original (final_state y) = original (final_state x) @ b"
    using parse_loop_sd_original[of fns] assms(1) by (simp add: parse_sd_def list_all_iff)
  ultimately show ?thesis by simp
qed

lemma rule_mw_keeps_original: "keeps_original (rule_mw t re)"
  by (auto simp: keeps_original_def rule_mw_def outcome_state_def match_sd_def advance_def
      updatePosition_sd_def Let_def split: option.splits)

text \<open>One dot, then two, on a fresh parser with the middleware for dots.\<close>

theorem parse_sd_appends_original_witness:
  "list_all keeps_original [rule_mw ''dot'' (lit CHR ''.'')] \<and>
   (\<exists>x y. parse_sd [rule_mw ''dot'' (lit CHR ''.'')] (JString ''.'') (Parser_sd opts0) = Some x
      \<and> parse_sd [rule_mw ''dot'' (lit CHR ''.'')] (JString ''..'') (final_state x) = Some y
      \<and> original (final_state y) = ''...'')"
proof -
  let ?F = "[rule_mw ''dot'' (lit CHR ''.'')]"
  have k: "list_all keeps_original ?F" by (simp add: rule_mw_keeps_original)
  have "parse_sd ?F (JString ''.'') (Parser_sd opts0) \<noteq> None" by code_simp
  then obtain x where x: "parse_sd ?F (JString ''.'') (Parser_sd opts0) = Some x" by blast
  have "parse_sd ?F (JString ''..'') (final_state (the (parse_sd ?F (JString ''.'') (Parser_sd opts0)))) \<noteq> None"
    by code_simp
  with x obtain y where y: "parse_sd ?F (JString ''..'') (final_state x) = Some y" by auto
  from parse_sd_appends_original[OF k x y] have "original (final_state y) = ''...''"
    by (simp add: Parser_sd_def)
  with k x y show ?thesis by blast
qed

text \<open>
  C9 as stated fails on the extglob parser: after \<^verbatim>\<open>parse('a')\<close> twice on one
  instance, \<^verbatim>\<open>orig\<close> is \<^verbatim>\<open>'a'\<close>, not \<^verbatim>\<open>'aa'\<close>.
\<close>

theorem parse_overwrites_orig_counterexample:
  "(case parse ''a'' (capture ''text'' (lit CHR ''a'') (Parser extglob_opts)) of
      Inl e \<Rightarrow> False
    | Inr p1 \<Rightarrow>
        (case parse ''a'' p1 of
           Inl e \<Rightarrow> False
         | Inr p2 \<Rightarrow> orig p1 = Some ''a'' \<and> orig p2 = Some ''a'' \<and> orig p2 \<noteq> Some (''a'' @ ''a'')))"
  by code_simp

section \<open>The renderer: unregistered node types\<close>

lemma all_nodes_self: "k \<in> set (all_nodes k)"
  by (cases k) auto

lemma registered_self: "registered r k \<Longrightarrow> renderers r (type (node_of k)) \<noteq> None"
  using all_nodes_self[of k] by (auto simp: registered_def list_all_iff)

lemma registered_Branch: "registered r (Branch n ks) \<Longrightarrow> list_all (registered r) ks"
  by (auto simp: registered_def list_all_iff)

lemma render_fine:
  "registered r k \<longrightarrow> fine r (visit k r)"
  "registered r k \<longrightarrow> fine r (call_fn fn k r)"
  "list_all (registered r) ks \<longrightarrow> fine r (mapVisit ks r)"
  "list_all (registered r) ks \<longrightarrow> fine r (mapVisit_from ks buf r)"
proof (induction k r and fn k r and ks r and ks buf r
    rule: visit_call_fn_mapVisit_mapVisit_from.induct)
  case (1 k r)
  show ?case
  proof
    assume reg: "registered r k"
    then obtain f0 where "renderers r (type (node_of k)) = Some f0"
      using registered_self by blast
    then obtain fn where fn: "lookup_renderer r (type (node_of k)) = Some fn"
      by (simp add: lookup_renderer_def)
    from 1[OF fn] reg fn show "fine r (visit k r)" by (simp add: visit.simps)
  qed
next
  case (2 k r)
  show ?case by (simp add: fine_def)
next
  case (3 s k r)
  show ?case by (simp add: fine_def)
next
  case (4 n r)
  show ?case by (simp add: fine_def)
next
  case (5 n ks r)
  show ?case
  proof
    assume "registered r (Branch n ks)"
    then have "list_all (registered r) ks" by (rule registered_Branch)
    with 5 have "fine r (mapVisit ks r)" by blast
    then show "fine r (call_fn MapVisitNodes (Branch n ks) r)"
      by (auto simp: fine_def split: sum.splits)
  qed
next
  case (6 name k r)
  show ?case by (simp add: fine_def split: option.splits)
next
  case (7 ks r)
  show ?case
  proof
    assume "list_all (registered r) ks"
    with 7 have "fine r (mapVisit_from ks [] r)" by blast
    then show "fine r (mapVisit ks r)"
      by (auto simp: fine_def mapVisit.simps split: sum.splits)
  qed
next
  case (8 buf r)
  show ?case by (simp add: fine_def)
next
  case (9 k ks buf r)
  show ?case
  proof
    assume reg: "list_all (registered r) (k # ks)"
    then have fk: "fine r (visit k r)" using 9(1) by simp
    show "fine r (mapVisit_from (k # ks) buf r)"
    proof (cases "visit k r")
      case (Inl a)
      with fk show ?thesis by (auto simp: fine_def)
    next
      case (Inr b)
      obtain x y where b: "b = (x, y)" by (cases b)
      with Inr fk have ry: "renderers y = renderers r" by (simp add: fine_def)
      with reg have "list_all (registered y) ks"
        by (simp add: list_all_iff registered_def)
      with 9(2)[OF Inr b[symmetric]] have "fine y (mapVisit_from ks (buf @ string_of x) y)"
        by blast
      with ry Inr b show ?thesis by (auto simp: fine_def split: sum.splits)
    qed
  qed
qed

lemma visit_unregistered:
  assumes "lookup_renderer r (type (node_of k)) = None"
  shows "\<exists>e. visit k r = Inl (FormattedError e, r) \<and> reason e = not_registered (node_of k)"
  using assms by (simp add: error_r_def visit.simps)

text \<open>
  \<^verbatim>\<open>mapVisit\<close> and \<^verbatim>\<open>render\<close> throw that error at the first node whose type yields no
  function, when the nodes before it are rendered by their value or a fixed string;
  and they never throw it on nodes that all have a render function.
\<close>

lemma visit_emits: "emits r k \<Longrightarrow> \<exists>v. visit k r = Inr (v, r)"
  by (auto simp: emits_def visit.simps lookup_renderer_def split: option.splits render_fn.splits)

lemma mapVisit_from_unregistered:
  assumes "list_all (emits r) pre" and "lookup_renderer r (type (node_of k)) = None"
  shows "\<exists>e. mapVisit_from (pre @ k # post) buf r = Inl (FormattedError e, r)
           \<and> reason e = not_registered (node_of k)"
  using assms
proof (induction pre arbitrary: buf)
  case Nil
  from visit_unregistered[OF Nil(2)] show ?case by auto
next
  case (Cons x pre)
  from Cons.prems(1) have "emits r x" by simp
  from visit_emits[OF this] obtain v where v: "visit x r = Inr (v, r)" ..
  from Cons.prems(1) have "list_all (emits r) pre" by simp
  from Cons.IH[OF this Cons.prems(2), of "buf @ string_of v"] v show ?case by simp
qed

lemma render_unregistered:
  assumes "list_all (emits r) pre" and "lookup_renderer r (type (node_of k)) = None"
  shows "\<exists>e. render (Branch n (pre @ k # post)) r
             = Inl (FormattedError e, r\<lparr>ast_r := Some (Branch n (pre @ k # post))\<rparr>)
           \<and> reason e = not_registered (node_of k)"
proof -
  let ?r = "r\<lparr>ast_r := Some (Branch n (pre @ k # post))\<rparr>"
  from assms(1) have a: "list_all (emits ?r) pre" by (simp add: emits_def list_all_iff)
  from assms(2) have b: "lookup_renderer ?r (type (node_of k)) = None"
    by (simp add: lookup_renderer_def)
  from mapVisit_from_unregistered[OF a b, of post "[]"] show ?thesis
    by (auto simp: render_def Let_def mapVisit.simps)
qed

lemma render_registered:
  assumes reg: "list_all (registered r) ks" and x: "render (Branch n ks) r = Inl (e, r1)"
  shows "is_TypeError e"
proof -
  let ?r = "r\<lparr>ast_r := Some (Branch n ks)\<rparr>"
  from reg have "list_all (registered ?r) ks"
    by (simp add: list_all_iff registered_def)
  with render_fine(3)[of ?r ks] have "fine ?r (mapVisit ks ?r)" by blast
  moreover from x have "mapVisit ks ?r = Inl (e, r1)"
    by (auto simp: render_def Let_def split: sum.splits)
  ultimately show ?thesis by (simp add: fine_def)
qed

text \<open>
  C8. A node whose type has no registered render function is to make \<^verbatim>\<open>visit\<close>
  throw the error that names the type and the value. \<^verbatim>\<open>visit\<close> tests
  \<^verbatim>\<open>typeof fn !== 'function'\<close> on \<^verbatim>\<open>this.renderers[node.type]\<close>, and for the type
  \<^verbatim>\<open>toString\<close> that is the method inherited from \<^verbatim>\<open>Object.prototype\<close>: on a new
  renderer, with nothing registered, \<^verbatim>\<open>visit\<close> of the node
  \<^verbatim>\<open>{type: 'toString', val: 'x'}\<close> throws nothing and returns \<^verbatim>\<open>[object Object]\<close>;
  and \<^verbatim>\<open>render\<close> of the tree that \<^verbatim>\<open>capture('toString', /^x/)\<close> parses of \<^verbatim>\<open>x\<close>, with
  render functions for \<^verbatim>\<open>bos\<close> and \<^verbatim>\<open>eos\<close> alone, returns with the text
  \<^verbatim>\<open>[object Object]\<close>. For the type \<^verbatim>\<open>star\<close> the same two calls throw the error.
\<close>

theorem inherited_name_rendered:
  "renderers (Renderer opts0) ''toString'' = None
   \<and> visit (Leaf ((new_node ''toString'')\<lparr>val := Some ''x''\<rparr>)) (Renderer opts0)
       = Inr (VString ''[object Object]'', Renderer opts0)
   \<and> (case parse ''x'' (capture ''toString'' (lit CHR ''x'') (Parser extglob_opts)) of
        Inl e \<Rightarrow> False
      | Inr p \<Rightarrow>
          map (\<lambda>k. type (node_of k)) (children (ast p)) = [''bos'', ''toString'', ''eos'']
          \<and> (case render (ast p)
                     (set_renderer ''bos'' EmitVal (set_renderer ''eos'' EmitVal (Renderer opts0))) of
                Inl e \<Rightarrow> False
              | Inr r \<Rightarrow> rendered r = ''[object Object]''))
   \<and> (case visit (Leaf ((new_node ''star'')\<lparr>val := Some ''*''\<rparr>)) (Renderer opts0) of
        Inl (FormattedError e, r) \<Rightarrow>
          reason e = ''renderer '' @ dq @ ''star'' @ dq
             @ '' is not registered. Failed to render string '' @ dq @ ''*'' @ dq
      | _ \<Rightarrow> False)
   \<and> (case parse ''x'' (capture ''star'' (lit CHR ''x'') (Parser extglob_opts)) of
        Inl e \<Rightarrow> False
      | Inr p \<Rightarrow>
          (case render (ast p)
                     (set_renderer ''bos'' EmitVal (set_renderer ''eos'' EmitVal (Renderer opts0))) of
             Inl (FormattedError e, r) \<Rightarrow>
               reason e = ''renderer '' @ dq @ ''star'' @ dq
                 @ '' is not registered. Failed to render string '' @ dq @ ''x'' @ dq
           | _ \<Rightarrow> False))"
proof (intro conjI)
  show "renderers (Renderer opts0) ''toString'' = None" by (simp add: Renderer_def)
  show "visit (Leaf ((new_node ''toString'')\<lparr>val := Some ''x''\<rparr>)) (Renderer opts0)
       = Inr (VString ''[object Object]'', Renderer opts0)"
    by (simp add: visit.simps lookup_renderer_def Renderer_def new_node_def object_prototype_def
        inherited_call_def)
qed (code_simp+)

section \<open>Balanced inputs: the renderer and the text of the tree\<close>

lemma verbatim_render:
  "verbatim (renderers r) k \<longrightarrow> visited_as r k (visit k r)"
  "verbatim (renderers r) k \<and> renderers r (type (node_of k)) = Some fn
     \<longrightarrow> visited_as r k (call_fn fn k r)"
  "list_all (verbatim (renderers r)) ks
     \<longrightarrow> rendered_as r (concat (map flat ks)) (concat (map echo ks) @ concat (map flat ks))
           (mapVisit ks r)"
  "list_all (verbatim (renderers r)) ks
     \<longrightarrow> rendered_as r (buf @ concat (map flat ks)) (concat (map echo ks))
           (mapVisit_from ks buf r)"
proof (induction k r and fn k r and ks r and ks buf r
    rule: visit_call_fn_mapVisit_mapVisit_from.induct)
  case (1 k r)
  show ?case
  proof
    assume v: "verbatim (renderers r) k"
    then obtain fn where fn: "renderers r (type (node_of k)) = Some fn"
      by (cases k) auto
    then have lk: "lookup_renderer r (type (node_of k)) = Some fn"
      by (simp add: lookup_renderer_def)
    from 1[OF lk] v fn lk show "visited_as r k (visit k r)" by (simp add: visit.simps)
  qed
next
  case (2 k r)
  show ?case
    by (cases k; cases "val (node_of k)") (auto simp: visited_as_def emit_def to_string_def)
next
  case (3 s k r)
  show ?case by (cases k) auto
next
  case (4 n r)
  show ?case by auto
next
  case (5 n ks r)
  show ?case
  proof
    assume "verbatim (renderers r) (Branch n ks)
      \<and> renderers r (type (node_of (Branch n ks))) = Some MapVisitNodes"
    then have "list_all (verbatim (renderers r)) ks" by simp
    with 5 have "rendered_as r (concat (map flat ks))
        (concat (map echo ks) @ concat (map flat ks)) (mapVisit ks r)" by blast
    then show "visited_as r (Branch n ks) (call_fn MapVisitNodes (Branch n ks) r)"
      by (auto simp: rendered_as_def visited_as_def)
  qed
next
  case (6 name k r)
  show ?case by (cases k) auto
next
  case (7 ks r)
  show ?case
  proof
    assume "list_all (verbatim (renderers r)) ks"
    with 7 have "rendered_as r ([] @ concat (map flat ks)) (concat (map echo ks))
        (mapVisit_from ks [] r)" by blast
    then show "rendered_as r (concat (map flat ks))
        (concat (map echo ks) @ concat (map flat ks)) (mapVisit ks r)"
      by (auto simp: rendered_as_def mapVisit.simps)
  qed
next
  case (8 buf r)
  show ?case by (simp add: rendered_as_def)
next
  case (9 k ks buf r)
  show ?case
  proof
    assume v: "list_all (verbatim (renderers r)) (k # ks)"
    with 9(1) have "visited_as r k (visit k r)" by simp
    then obtain x y where vis: "visit k r = Inr (x, y)" and tx: "string_of x = flat k"
      and ry: "renderers y = renderers r" and ey: "rendered y = rendered r @ echo k"
      by (auto simp: visited_as_def)
    from v ry have "list_all (verbatim (renderers y)) ks" by simp
    with 9(2)[OF vis refl] have "rendered_as y ((buf @ string_of x) @ concat (map flat ks))
        (concat (map echo ks)) (mapVisit_from ks (buf @ string_of x) y)" by blast
    with vis tx ry ey show "rendered_as r (buf @ concat (map flat (k # ks)))
        (concat (map echo (k # ks))) (mapVisit_from (k # ks) buf r)"
      by (auto simp: rendered_as_def)
  qed
qed

lemma text_step:
  assumes n: "nested p ks" and fl: "flat (ast p) = parsed_text p" and e: "effected p q e"
  shows "flat (ast q) = parsed_text q"
proof (cases e)
  case Skip
  with e fl show ?thesis by simp
next
  case (Token nd)
  with e have t1: "nodes_push (ast p) (prev p) (Leaf nd) = Some (ast q)"
    and tx: "parsed_text q = parsed_text p @ to_string (val nd)" by auto
  from nodes_push_flat[OF nested_prev(1)[OF n] t1] fl tx show ?thesis by simp
next
  case (Opened nd opn)
  with e have t1: "nodes_push (ast p) (prev p) (Branch nd [Leaf opn]) = Some (ast q)"
    and tx: "parsed_text q = parsed_text p @ to_string (val opn)" by auto
  from nodes_push_flat[OF nested_prev(1)[OF n] t1] fl tx show ?thesis by simp
next
  case (Closed nd)
  with e have ne: "stack p \<noteq> []"
    and t1: "nodes_push (ast p) (last (stack p)) (Leaf nd) = Some (ast q)"
    and tx: "parsed_text q = parsed_text p @ to_string (val nd)" by auto
  from ne nested_prev(1)[OF n] have "rspine (ast p) (last (stack p))" by (simp add: prev_def)
  from nodes_push_flat[OF this t1] fl tx show ?thesis by simp
qed

lemma verbatim_step:
  assumes f: "renders_verbatim f h" and v: "list_all (verbatim f) (children (ast p))"
    and e: "effected p q e" and m: "makes h e"
  shows "list_all (verbatim f) (children (ast q))"
proof (cases e)
  case Skip
  with e v show ?thesis by simp
next
  case (Token nd)
  with e have t1: "nodes_push (ast p) (prev p) (Leaf nd) = Some (ast q)" by auto
  from m Token f have "verbatim f (Leaf nd)"
    by (cases h) (auto simp: renders_verbatim_def)
  with t1 v show ?thesis by (rule nodes_push_root_verbatim)
next
  case (Opened nd opn)
  with e have t1: "nodes_push (ast p) (prev p) (Branch nd [Leaf opn]) = Some (ast q)"
    and ty: "type opn = type nd @ ''.open''" by auto
  from m Opened f ty have "verbatim f (Branch nd [Leaf opn])"
    by (cases h) (auto simp: renders_verbatim_def)
  with t1 v show ?thesis by (rule nodes_push_root_verbatim)
next
  case (Closed nd)
  with e have t1: "nodes_push (ast p) (last (stack p)) (Leaf nd) = Some (ast q)" by auto
  from m Closed f have "verbatim f (Leaf nd)"
    by (cases h) (auto simp: renders_verbatim_def)
  with t1 v show ?thesis by (rule nodes_push_root_verbatim)
qed

text \<open>The loop and \<^verbatim>\<open>parse\<close> on a properly nested input: the text of the tree.\<close>

lemma parse_loop_text:
  assumes f: "fresh P" and k: "kinds_known P" and s: "scanned P inp = Some (ks, w, tx)"
    and v: "verbatim_for P g"
  shows "\<exists>q. parse_loop (P\<lparr>orig := Some inp, input := inp\<rparr>) = Inr q
     \<and> tracks q (ks, w, tx) \<and> flat (ast q) = tx \<and> list_all (verbatim g) (children (ast q))
     \<and> same_config (P\<lparr>orig := Some inp, input := inp\<rparr>) q"
proof -
  let ?p = "P\<lparr>orig := Some inp, input := inp\<rparr>"
  let ?H = "{h. renders_verbatim g h}"
  let ?K = "\<lambda>p. flat (ast p) = parsed_text p \<and> list_all (verbatim g) (children (ast p))"
  have tb: "\<forall>t \<in> set (types ?p). \<forall>h. parsers ?p t = Some h \<longrightarrow> h \<in> ?H \<and> kind_known h"
    using k v by (auto simp: kinds_known_def verbatim_for_def list_all_iff split: option.splits)
  from s have sc: "scan_loop (parsers ?p) (types ?p) ([], inp, []) = Some (ks, w, tx)"
    by (simp add: scanned_def)
  from f v have k0: "?K ?p"
    by (simp add: fresh_def verbatim_for_def bos_def new_node_def to_string_def)
  have "\<exists>q. parse_loop ?p = Inr q \<and> tracks q (ks, w, tx) \<and> ?K q \<and> same_config ?p q"
  proof (rule loop_sim[where H = ?H and K = ?K, OF _ fresh_tracks[OF f] k0 tb sc])
    fix h p q e ks
    assume "h \<in> ?H" "nested p ks" "?K p" "effected p q e" "makes h e"
    then show "?K q" using text_step verbatim_step by blast
  qed
  then show ?thesis by (auto simp: tracks_def)
qed

lemma parse_text:
  assumes f: "fresh P" and k: "kinds_known P" and s: "scanned P inp = Some (ks, w, tx)"
    and v: "verbatim_for P g" and e: "ks = [] \<or> \<not> strict (options P)"
  shows "\<exists>q. parse inp P = Inr q \<and> nested q ks \<and> flat (ast q) = tx
     \<and> list_all (verbatim g) (children (ast q)) \<and> is_branch (ast q) []"
proof -
  let ?p = "P\<lparr>orig := Some inp, input := inp\<rparr>"
  from parse_loop_text[OF f k s v] obtain q where l: "parse_loop ?p = Inr q"
    and t: "tracks q (ks, w, tx)" and fl: "flat (ast q) = tx"
    and ve: "list_all (verbatim g) (children (ast q))" and c: "same_config ?p q" by blast
  from t have n: "nested q ks" and i: "input q = w" and pt: "parsed_text q = tx"
    by (simp_all add: tracks_def)
  from s have "w = []" unfolding scanned_def by (rule scan_loop_end)
  with i have i0: "input q = []" by simp
  from f c have a: "append_text q = None" by (simp add: fresh_def same_config_def)
  from n have "length (stack q) = length ks" by (auto simp: nested_def)
  with e have "stack q = [] \<or> \<not> strict (options P)" by auto
  from parse_after_loop[OF l c this] have p: "parse inp P = eos q" .
  from eos_step[OF n i0 a] obtain q1 nd where q1: "eos q = Inr q1" "nested q1 ks"
    and qq: "q1 = q\<lparr>ast := ast q1\<rparr>"
    and ef: "effected q q1 (Token nd)" and ty: "type nd = ''eos''" by blast
  from fl pt have "flat (ast q) = parsed_text q" by simp
  from text_step[OF n this ef] have "flat (ast q1) = parsed_text q1" .
  moreover from arg_cong[OF qq, of parsed_text] have "parsed_text q1 = parsed_text q" by simp
  ultimately have f1: "flat (ast q1) = tx" using pt by simp
  from v have "renders_verbatim g (Capture ''eos'' (\<lambda>s. None))"
    by (simp add: verbatim_for_def renders_verbatim_def)
  from verbatim_step[OF this ve ef] ty have v1: "list_all (verbatim g) (children (ast q1))"
    by simp
  from q1(2) have "is_branch (ast q1) []" by (simp add: nested_def rspine_is_branch)
  with p q1 f1 v1 show ?thesis by auto
qed

section \<open>Balanced inputs: the round trip\<close>

lemma fresh_register: "fresh p \<Longrightarrow> fresh (register x p)"
  by (cases x) (simp_all add: fresh_def capture_def pair_def set_parser_def Parser_def)

lemma fresh_foldl: "fresh p \<Longrightarrow> fresh (foldl (\<lambda>p r. register r p) p regs)"
  by (induction regs arbitrary: p) (simp_all add: fresh_register)

lemma fresh_configured: "fresh (configured regs opts)"
  unfolding configured_def by (rule fresh_foldl) (simp add: fresh_def Parser_def)

lemma balanced_parse_render:
  assumes f: "fresh P" and k: "kinds_known P" and b: "balanced P inp"
    and v: "verbatim_for P (renderers r)"
  shows "\<exists>p r1. parse inp P = Inr p \<and> stack p = [] \<and> is_branch (ast p) []
     \<and> mapVisit (children (ast p)) r = Inr (inp, r1)
     \<and> rendered r1 = rendered r @ concat (map echo (children (ast p))) @ inp"
proof -
  from b have s: "scanned P inp = Some ([], [], inp)" by (simp add: balanced_def)
  from parse_text[OF f k s v] obtain p where p: "parse inp P = Inr p" and n: "nested p []"
    and fl: "flat (ast p) = inp" and ve: "list_all (verbatim (renderers r)) (children (ast p))"
    and br: "is_branch (ast p) []" by auto
  from n have st: "stack p = []" by (simp add: nested_def)
  from br obtain m ks where t: "ast p = Branch m ks"
    by (auto simp: is_branch_def split: ast.splits)
  from verbatim_render(3)[of r "children (ast p)"] ve obtain r1 where
    "mapVisit (children (ast p)) r = Inr (concat (map flat (children (ast p))), r1)"
    "rendered r1 = rendered r @ concat (map echo (children (ast p)))
       @ concat (map flat (children (ast p)))"
    by (auto simp: rendered_as_def)
  with fl t p st br show ?thesis by auto
qed

subsection \<open>The grammar of well-balanced pairs\<close>

text \<open>
  The inputs that the grammar of well-balanced pairs generates, over a table of pairs
  with different characters and a capture for the text between them, are balanced
  in the sense of the handlers: they take such an input to its end, with every
  close closing the kind opened last.
\<close>

lemma find_key:
  "distinct (map g xs) \<Longrightarrow> x \<in> set xs \<Longrightarrow> find (\<lambda>y. g y = g x) xs = Some x"
proof (induction xs)
  case (Cons y ys)
  then show ?case by (cases "g y = g x") (auto simp: image_iff)
qed simp

lemma lit_simps:
  "lit a [] = None"
  "lit a (x # w) = (if x = a then Some \<lparr>m0 = [a], m1 = None\<rparr> else None)"
  by (simp_all add: lit_def)

lemma lit_inject: "lit a = lit b \<Longrightarrow> a = b"
proof -
  assume "lit a = lit b"
  then have "lit a [a] = lit b [a]" by simp
  then show ?thesis by (simp add: lit_simps split: if_splits)
qed

lemma table_find_open:
  assumes "table_wf tbl" and "(k, a, b) \<in> set tbl"
  shows "find (\<lambda>(k, a1, b1). a1 = a) tbl = Some (k, a, b)"
proof -
  from assms(1) have "distinct (map (\<lambda>(k, a, b). a) tbl)" by (simp add: table_wf_def specials_def)
  from find_key[OF this assms(2)] show ?thesis by (simp add: case_prod_unfold)
qed

lemma table_find_close:
  assumes "table_wf tbl" and "(k, a, b) \<in> set tbl"
  shows "find (\<lambda>(k, a1, b1). a1 = b) tbl = None"
    and "find (\<lambda>(k, a1, b1). b1 = b) tbl = Some (k, a, b)"
proof -
  from assms(1) have d: "distinct (map (\<lambda>(k, a, b). b) tbl)"
    and i: "set (map (\<lambda>(k, a, b). a) tbl) \<inter> set (map (\<lambda>(k, a, b). b) tbl) = {}"
    by (simp_all add: table_wf_def specials_def)
  from assms(2) have "b \<in> set (map (\<lambda>(k, a, b). b) tbl)" by force
  with i have "b \<notin> set (map (\<lambda>(k, a, b). a) tbl)" by blast
  then show "find (\<lambda>(k, a1, b1). a1 = b) tbl = None"
    by (force simp: find_None_iff image_iff)
  from find_key[OF d assms(2)] show "find (\<lambda>(k, a1, b1). b1 = b) tbl = Some (k, a, b)"
    by (simp add: case_prod_unfold)
qed

lemma find_text:
  assumes "x \<notin> set (specials tbl)"
  shows "find (\<lambda>(k, a, b). a = x) tbl = None" "find (\<lambda>(k, a, b). b = x) tbl = None"
  using assms by (force simp: find_None_iff specials_def image_iff)+

lemma closes_text:
  "\<forall>x \<in> set u. x \<notin> set (specials tbl) \<Longrightarrow> closes tbl st (u @ w) = closes tbl st w"
  by (induction u) (simp_all add: find_text)

lemma well_balanced_closes:
  assumes t: "table_wf tbl"
  shows "well_balanced tbl w \<Longrightarrow> closes tbl st (w @ v) = closes tbl st v"
proof (induction w arbitrary: st v rule: well_balanced.induct)
  case wb_empty
  show ?case by simp
next
  case (wb_text c w)
  then show ?case by (simp add: find_text)
next
  case (wb_wrap k a b u v1)
  have "closes tbl st ((a # u @ b # v1) @ v) = closes tbl (k # st) (u @ (b # v1 @ v))"
    using table_find_open[OF t wb_wrap.hyps(1)] by simp
  also have "\<dots> = closes tbl (k # st) (b # v1 @ v)" by (rule wb_wrap.IH(1))
  also have "\<dots> = closes tbl st (v1 @ v)"
    using table_find_close[OF t wb_wrap.hyps(1)] by simp
  also have "\<dots> = closes tbl st v" by (rule wb_wrap.IH(2))
  finally show ?case .
qed

text \<open>Each handler of the table on an input that closes what is open.\<close>

lemma table_scan_handler:
  assumes t: "table_wf tbl" and h: "table_handler tbl h"
    and c: "closes tbl (rev ks) inp"
  shows "\<exists>ks1 inp1 tx1. scan_handler h (ks, inp, tx) = Some (ks1, inp1, tx1)
     \<and> closes tbl (rev ks1) inp1 \<and> tx1 @ inp1 = tx @ inp
     \<and> (inp \<noteq> [] \<and> takes tbl h (hd inp) \<longrightarrow> inp1 \<noteq> inp)"
proof -
  from h consider k a b where "(k, a, b) \<in> set tbl" "h = PairOpen k (lit a)"
    | k a b where "(k, a, b) \<in> set tbl" "h = PairClose k (lit b)"
    | "h = Capture ''text'' (none_of (specials tbl))"
    by (auto simp: table_handler_def list_ex_iff)
  then show ?thesis
  proof cases
    case 1
    show ?thesis
    proof (cases inp)
      case Nil
      with 1 c show ?thesis by (simp add: lit_simps)
    next
      case (Cons x w)
      show ?thesis
      proof (cases "x = a")
        case True
        with Cons c table_find_open[OF t 1(1)] have "closes tbl (k # rev ks) w" by simp
        with 1 Cons True show ?thesis by (simp add: lit_simps)
      next
        case False
        with 1 Cons c show ?thesis by (auto simp: lit_simps dest: lit_inject)
      qed
    qed
  next
    case 2
    show ?thesis
    proof (cases inp)
      case Nil
      with 2 c show ?thesis by (simp add: lit_simps)
    next
      case (Cons x w)
      show ?thesis
      proof (cases "x = b")
        case True
        with Cons c table_find_close[OF t 2(1)] obtain st1 where
          st: "rev ks = k # st1" and c1: "closes tbl st1 w"
          by (auto split: list.splits)
        from st have ks: "ks = rev st1 @ [k]" by (metis rev_rev_ident rev.simps(2))
        with 2 Cons True c1 show ?thesis by (simp add: lit_simps)
      next
        case False
        with 2 Cons c show ?thesis by (auto simp: lit_simps dest: lit_inject)
      qed
    qed
  next
    case 3
    let ?u = "takeWhile (\<lambda>x. x \<notin> set (specials tbl)) inp"
    have u: "?u @ dropWhile (\<lambda>x. x \<notin> set (specials tbl)) inp = inp" by simp
    have d: "drop (length ?u) inp = dropWhile (\<lambda>x. x \<notin> set (specials tbl)) inp"
      by (metis append_eq_conv_conj u)
    have "\<forall>x \<in> set ?u. x \<notin> set (specials tbl)" by (auto dest: set_takeWhileD)
    from closes_text[OF this, of "rev ks" "dropWhile (\<lambda>x. x \<notin> set (specials tbl)) inp"] c u
    have c1: "closes tbl (rev ks) (dropWhile (\<lambda>x. x \<notin> set (specials tbl)) inp)" by simp
    show ?thesis
    proof (cases "?u = []")
      case True
      then have "inp = [] \<or> hd inp \<in> set (specials tbl)"
        by (cases inp) (auto split: if_splits)
      with 3 True c show ?thesis by (auto simp: none_of_def)
    next
      case False
      then have "length (dropWhile (\<lambda>x. x \<notin> set (specials tbl)) inp) < length inp"
        by (metis u length_append length_greater_0_conv less_add_same_cancel2)
      then have "dropWhile (\<lambda>x. x \<notin> set (specials tbl)) inp \<noteq> inp" by auto
      with 3 False c1 d u show ?thesis by (simp add: none_of_def)
    qed
  qed
qed

lemma table_scan_from:
  assumes t: "table_wf tbl"
  shows "\<forall>n \<in> set ts. \<exists>h. ps n = Some h \<and> table_handler tbl h
    \<Longrightarrow> closes tbl (rev ks) inp
    \<Longrightarrow> \<exists>ks1 inp1 tx1. scan_from ps ts (ks, inp, tx) = Some (ks1, inp1, tx1)
     \<and> closes tbl (rev ks1) inp1 \<and> tx1 @ inp1 = tx @ inp
     \<and> (inp \<noteq> [] \<and> (\<exists>n \<in> set ts. \<exists>h. ps n = Some h \<and> takes tbl h (hd inp))
          \<longrightarrow> inp1 \<noteq> inp)"
proof (induction ts arbitrary: ks inp tx)
  case Nil
  then show ?case by simp
next
  case (Cons n ts)
  from Cons.prems(1) obtain h where h: "ps n = Some h" and th: "table_handler tbl h" by auto
  from table_scan_handler[OF t th Cons.prems(2), of tx] obtain ks2 inp2 tx2 where
    s2: "scan_handler h (ks, inp, tx) = Some (ks2, inp2, tx2)"
    and c2: "closes tbl (rev ks2) inp2" and e2: "tx2 @ inp2 = tx @ inp"
    and p2: "inp \<noteq> [] \<and> takes tbl h (hd inp) \<longrightarrow> inp2 \<noteq> inp" by blast
  from Cons.prems(1) have rest: "\<forall>n \<in> set ts. \<exists>h. ps n = Some h \<and> table_handler tbl h" by simp
  from Cons.IH[OF rest c2, of tx2] obtain ks1 inp1 tx1 where
    s1: "scan_from ps ts (ks2, inp2, tx2) = Some (ks1, inp1, tx1)"
    and c1: "closes tbl (rev ks1) inp1" and e1: "tx1 @ inp1 = tx2 @ inp2"
    and p1: "inp2 \<noteq> [] \<and> (\<exists>n \<in> set ts. \<exists>h. ps n = Some h \<and> takes tbl h (hd inp2))
          \<longrightarrow> inp1 \<noteq> inp2" by blast
  from scan_handler_input[OF s2] obtain i where i: "inp2 = drop i inp" ..
  from scan_from_input[OF s1] obtain j where j: "inp1 = drop j inp2" ..
  have "inp1 \<noteq> inp"
    if a: "inp \<noteq> []" and b: "\<exists>n \<in> set (n # ts). \<exists>h. ps n = Some h \<and> takes tbl h (hd inp)"
  proof (cases "inp2 = inp")
    case True
    with p2 a have "\<not> takes tbl h (hd inp)" by auto
    with b h have "\<exists>n \<in> set ts. \<exists>h. ps n = Some h \<and> takes tbl h (hd inp)" by auto
    with p1 True a show ?thesis by simp
  next
    case False
    with i have "length inp2 < length inp"
      by (metis drop_all drop_eq_Nil length_drop diff_less length_greater_0_conv
          less_or_eq_imp_le not_le drop0 zero_less_iff_neq_zero)
    with j have "length inp1 < length inp" by simp
    then show ?thesis by auto
  qed
  with h s2 s1 c1 e1 e2 show ?case by simp
qed

lemma table_scan_loop:
  assumes t: "table_wf tbl"
    and hs: "\<forall>n \<in> set ts. \<exists>h. ps n = Some h \<and> table_handler tbl h"
    and tk: "\<And>x. \<exists>n \<in> set ts. \<exists>h. ps n = Some h \<and> takes tbl h x"
  shows "closes tbl (rev ks) inp \<Longrightarrow> scan_loop ps ts (ks, inp, tx) = Some ([], [], tx @ inp)"
proof (induction inp arbitrary: ks tx rule: length_induct)
  case (1 inp)
  show ?case
  proof (cases "inp = []")
    case True
    with "1.prems" show ?thesis by (simp add: scan_loop.simps)
  next
    case False
    from table_scan_from[OF t hs "1.prems", of tx] tk[of "hd inp"] False
    obtain ks1 inp1 tx1 where
      s1: "scan_from ps ts (ks, inp, tx) = Some (ks1, inp1, tx1)"
      and c1: "closes tbl (rev ks1) inp1" and e1: "tx1 @ inp1 = tx @ inp"
      and p1: "inp1 \<noteq> inp" by blast
    from scan_from_shorter[OF s1 p1] have "length inp1 < length inp" .
    with "1.IH" c1 have "scan_loop ps ts (ks1, inp1, tx1) = Some ([], [], tx1 @ inp1)" by blast
    with False s1 p1 e1 show ?thesis by (simp add: scan_loop.simps)
  qed
qed

lemma configured_snoc: "configured (regs @ [x]) opts = register x (configured regs opts)"
  by (simp add: configured_def)

lemma pair_calls_snoc: "pair_calls (tbl @ [(k, a, b)]) = pair_calls tbl @ [Par k (lit a) (lit b)]"
  by (simp add: pair_calls_def)

lemma handler_names:
  "k @ ''.open'' \<noteq> k1 @ ''.close''" "k @ ''.close'' \<noteq> k1 @ ''.open''"
  "k @ ''.open'' \<noteq> ''text''" "k @ ''.close'' \<noteq> ''text''"
proof -
  have "last (k @ ''.open'') \<noteq> last (k1 @ ''.close'')" by simp
  then show "k @ ''.open'' \<noteq> k1 @ ''.close''" by metis
  have "last (k @ ''.close'') \<noteq> last (k1 @ ''.open'')" by simp
  then show "k @ ''.close'' \<noteq> k1 @ ''.open''" by metis
  have "last (k @ ''.open'') \<noteq> last ''text''" by simp
  then show "k @ ''.open'' \<noteq> ''text''" by metis
  have "last (k @ ''.close'') \<noteq> last ''text''" by simp
  then show "k @ ''.close'' \<noteq> ''text''" by metis
qed

lemma pair_calls_types:
  "set (types (configured (pair_calls tbl) opts))
     = (\<Union>(k, a, b) \<in> set tbl. {k @ ''.open'', k @ ''.close''})"
proof (induction tbl rule: rev_induct)
  case Nil
  show ?case by (simp add: pair_calls_def configured_def Parser_def)
next
  case (snoc x tbl)
  obtain k a b where x: "x = (k, a, b)" by (cases x)
  from snoc show ?case
    by (auto simp: x pair_calls_snoc configured_snoc pair_def set_parser_def)
qed

lemma pair_calls_parsers:
  "distinct (map fst tbl) \<Longrightarrow> (k, a, b) \<in> set tbl
   \<Longrightarrow> parsers (configured (pair_calls tbl) opts) (k @ ''.open'') = Some (PairOpen k (lit a))
     \<and> parsers (configured (pair_calls tbl) opts) (k @ ''.close'') = Some (PairClose k (lit b))"
proof (induction tbl rule: rev_induct)
  case Nil
  then show ?case by simp
next
  case (snoc x tbl)
  obtain k1 a1 b1 where x: "x = (k1, a1, b1)" by (cases x)
  show ?case
  proof (cases "(k, a, b) = x")
    case True
    with x show ?thesis
      by (simp add: pair_calls_snoc configured_snoc pair_def set_parser_def handler_names)
  next
    case False
    with snoc.prems have m: "(k, a, b) \<in> set tbl" and d: "distinct (map fst tbl)" by auto
    from snoc.prems x m have "k1 \<noteq> k" by (force simp: image_iff)
    with snoc.IH[OF d m] x show ?thesis
      by (simp add: pair_calls_snoc configured_snoc pair_def set_parser_def handler_names)
  qed
qed

lemma table_parser_types:
  "set (types (table_parser tbl opts))
     = insert ''text'' (\<Union>(k, a, b) \<in> set tbl. {k @ ''.open'', k @ ''.close''})"
  by (simp add: table_parser_def configured_snoc capture_def set_parser_def pair_calls_types)

lemma table_parser_parsers:
  "parsers (table_parser tbl opts) ''text'' = Some (Capture ''text'' (none_of (specials tbl)))"
  "distinct (map fst tbl) \<Longrightarrow> (k, a, b) \<in> set tbl
   \<Longrightarrow> parsers (table_parser tbl opts) (k @ ''.open'') = Some (PairOpen k (lit a))"
  "distinct (map fst tbl) \<Longrightarrow> (k, a, b) \<in> set tbl
   \<Longrightarrow> parsers (table_parser tbl opts) (k @ ''.close'') = Some (PairClose k (lit b))"
  using pair_calls_parsers[of tbl k a b opts]
  by (simp_all add: table_parser_def configured_snoc capture_def set_parser_def handler_names)

lemma table_parser_handlers:
  assumes "distinct (map fst tbl)" and "n \<in> set (types (table_parser tbl opts))"
  shows "\<exists>h. parsers (table_parser tbl opts) n = Some h \<and> table_handler tbl h"
proof -
  from assms(2) consider "n = ''text''"
    | k a b where "(k, a, b) \<in> set tbl" "n = k @ ''.open''"
    | k a b where "(k, a, b) \<in> set tbl" "n = k @ ''.close''"
    by (auto simp: table_parser_types)
  then show ?thesis
  proof cases
    case 1
    then show ?thesis by (simp add: table_parser_parsers(1) table_handler_def)
  next
    case 2
    with table_parser_parsers(2)[OF assms(1) 2(1), of opts] show ?thesis
      by (auto simp: table_handler_def list_ex_iff)
  next
    case 3
    with table_parser_parsers(3)[OF assms(1) 3(1), of opts] show ?thesis
      by (auto simp: table_handler_def list_ex_iff)
  qed
qed

lemma table_parser_takes:
  assumes "distinct (map fst tbl)"
  shows "\<exists>n \<in> set (types (table_parser tbl opts)).
           \<exists>h. parsers (table_parser tbl opts) n = Some h \<and> takes tbl h x"
proof (cases "x \<in> set (map (\<lambda>(k, a, b). a) tbl)")
  case True
  then obtain k b where m: "(k, x, b) \<in> set tbl" by auto
  then have "k @ ''.open'' \<in> set (types (table_parser tbl opts))"
    by (force simp: table_parser_types)
  with table_parser_parsers(2)[OF assms m, of opts] show ?thesis by force
next
  case False
  show ?thesis
  proof (cases "x \<in> set (map (\<lambda>(k, a, b). b) tbl)")
    case True
    then obtain k a where m: "(k, a, x) \<in> set tbl" by auto
    then have "k @ ''.close'' \<in> set (types (table_parser tbl opts))"
      by (force simp: table_parser_types)
    with table_parser_parsers(3)[OF assms m, of opts] show ?thesis by force
  next
    case c: False
    with False have "x \<notin> set (specials tbl)" by (simp add: specials_def)
    moreover have "''text'' \<in> set (types (table_parser tbl opts))"
      by (simp add: table_parser_types)
    ultimately show ?thesis using table_parser_parsers(1)[of tbl opts] by force
  qed
qed

lemma table_handler_known:
  "table_wf tbl \<Longrightarrow> table_handler tbl h \<Longrightarrow> kind_known h"
  by (force simp: table_wf_def table_handler_def kind_known_def list_ex_iff image_iff
      split: handler.splits)

text \<open>
  The inputs of the grammar are balanced for the parser of the table, which is a new
  parser with known kinds.
\<close>

lemma well_balanced_balanced:
  assumes t: "table_wf tbl" and w: "well_balanced tbl w"
  shows "balanced (table_parser tbl opts) w"
proof -
  from t have d: "distinct (map fst tbl)" by (simp add: table_wf_def)
  from well_balanced_closes[OF t w, of "[]" "[]"] have c: "closes tbl (rev []) w" by simp
  have "scan_loop (parsers (table_parser tbl opts)) (types (table_parser tbl opts)) ([], w, [])
      = Some ([], [], [] @ w)"
  proof (rule table_scan_loop[OF t _ _ c])
    show "\<forall>n \<in> set (types (table_parser tbl opts)).
        \<exists>h. parsers (table_parser tbl opts) n = Some h \<and> table_handler tbl h"
      using table_parser_handlers[OF d] by blast
    show "\<exists>n \<in> set (types (table_parser tbl opts)).
        \<exists>h. parsers (table_parser tbl opts) n = Some h \<and> takes tbl h x" for x
      by (rule table_parser_takes[OF d])
  qed
  then show ?thesis by (simp add: balanced_def scanned_def)
qed

lemma fresh_table_parser: "fresh (table_parser tbl opts)"
  unfolding table_parser_def by (rule fresh_configured)

lemma kinds_known_table_parser:
  assumes "table_wf tbl"
  shows "kinds_known (table_parser tbl opts)"
proof -
  from assms have d: "distinct (map fst tbl)" by (simp add: table_wf_def)
  show ?thesis
    unfolding kinds_known_def list_all_iff
  proof
    fix n assume "n \<in> set (types (table_parser tbl opts))"
    from table_parser_handlers[OF d this] obtain h where
      "parsers (table_parser tbl opts) n = Some h" "table_handler tbl h" by blast
    with table_handler_known[OF assms] show
      "case parsers (table_parser tbl opts) n of None \<Rightarrow> True | Some h \<Rightarrow> kind_known h"
      by simp
  qed
qed

lemma well_balanced_parse_render:
  assumes t: "table_wf tbl" and w: "well_balanced tbl w"
    and v: "verbatim_for (table_parser tbl opts) (renderers r)"
  shows "\<exists>p r1. parse w (table_parser tbl opts) = Inr p \<and> stack p = []
     \<and> mapVisit (children (ast p)) r = Inr (w, r1)"
  using balanced_parse_render[OF fresh_table_parser kinds_known_table_parser[OF t]
      well_balanced_balanced[OF t w] v]
  by blast


text \<open>
  What \<^verbatim>\<open>render\<close> leaves in \<^verbatim>\<open>rendered\<close> is that text after the text of every
  container, once for each \<^verbatim>\<open>mapVisit\<close> that has returned below the root.
\<close>

lemma balanced_rendered:
  assumes "fresh P" and "kinds_known P" and "balanced P inp"
    and "verbatim_for P (renderers r)"
  shows "\<exists>p r1. parse inp P = Inr p \<and> render (ast p) r = Inr r1
     \<and> rendered r1 = rendered r @ concat (map echo (children (ast p))) @ inp"
proof -
  from balanced_parse_render[OF assms] obtain p where
    p: "parse inp P = Inr p" and br: "is_branch (ast p) []" by blast
  let ?r = "r\<lparr>ast_r := Some (ast p)\<rparr>"
  from assms(4) have "verbatim_for P (renderers ?r)" by simp
  from balanced_parse_render[OF assms(1,2,3) this] p obtain r1 where
    m: "mapVisit (children (ast p)) ?r = Inr (inp, r1)"
    and e: "rendered r1 = rendered ?r @ concat (map echo (children (ast p))) @ inp" by auto
  from br obtain n ks where "ast p = Branch n ks"
    by (auto simp: is_branch_def split: ast.splits)
  with m have "render (ast p) r = Inr r1" by (simp add: render_def Let_def)
  with p e show ?thesis by auto
qed






end
